theory Spec2Isabelle
  imports Complex_Main
begin

section \<open>Strings\<close>

text \<open>
  JavaScript strings are modelled as \<^typ>\<open>string\<close>: one \<^typ>\<open>char\<close> per UTF-16 code
  unit, restricted to the code units below 256 (Latin-1).  \<open>String.prototype.trim\<close> removes
  white space and line terminators at both ends; below 256 these are the code units
  9 to 13, 32 and 160.
\<close>

definition is_ws :: "char \<Rightarrow> bool" where
  "is_ws c = ((of_char c :: nat) \<in> {9, 10, 11, 12, 13, 32, 160})"

definition trim :: "string \<Rightarrow> string" where
  "trim s = rev (dropWhile is_ws (rev (dropWhile is_ws s)))"

section \<open>Text engine: data (ChatBot.tsx)\<close>

text \<open>
  \<open>interface Message { id: string; role: 'user' | 'model'; text: string }\<close>.
  The log is read back from local storage with \<open>JSON.parse\<close>, so the role is kept as the
  string it is at run time; the sanitizer compares it with \<open>===\<close>.
\<close>

record message =
  m_id :: string
  m_role :: string
  m_text :: string

text \<open>The SDK's \<open>Content\<close> as the sanitizer builds it: \<open>{role, parts: [{text}]}\<close>.\<close>

record content =
  c_role :: string
  c_parts :: "string list"

section \<open>Text engine: history sanitizer (initChat)\<close>

text \<open>
  The body of \<open>historyMessages.forEach\<close>, threading the two variables it mutates:
  \<open>expectedRole\<close> and \<open>validHistory\<close>.  A message whose role is not the expected one is
  skipped (the inner \<open>if\<close> only logs a warning).
\<close>

fun walk :: "string \<Rightarrow> content list \<Rightarrow> message list \<Rightarrow> string \<times> content list" where
  "walk expectedRole validHistory [] = (expectedRole, validHistory)"
| "walk expectedRole validHistory (msg # msgs) =
     (if m_role msg = expectedRole
      then walk (if expectedRole = ''user'' then ''model'' else ''user'')
                (validHistory @ [\<lparr>c_role = m_role msg, c_parts = [m_text msg]\<rparr>]) msgs
      else walk expectedRole validHistory msgs)"

definition historyMessages :: "message list \<Rightarrow> message list" where
  "historyMessages messages =
     filter (\<lambda>msg. m_id msg \<noteq> ''1'' \<and> trim (m_text msg) \<noteq> '''') messages"

definition walked :: "message list \<Rightarrow> content list" where
  "walked messages = snd (walk ''user'' [] (historyMessages messages))"

text \<open>\<open>validHistory\<close> as it is passed to \<open>ai.chats.create\<close>: after the conditional \<open>pop()\<close>.\<close>

definition sanitize :: "message list \<Rightarrow> content list" where
  "sanitize messages =
     (let validHistory = walked messages
      in if length validHistory > 0 \<and> c_role (last validHistory) = ''user''
         then butlast validHistory else validHistory)"

section \<open>Tool invocations and their effects (both engines)\<close>

text \<open>
  A function call of the service: \<open>{id?, name, args?}\<close>.  The arguments are optional in
  the SDK's type and read through \<open>as any\<close> in the source: \<open>fc_args\<close> is \<open>None\<close> when
  \<open>args\<close> is undefined (reading a field of it then throws a TypeError), otherwise a map
  from field names to strings, an absent field reading as \<open>undefined\<close> (\<open>None\<close>).
\<close>

record function_call =
  fc_id :: "string option"
  fc_name :: string
  fc_args :: "(string \<rightharpoonup> string) option"

text \<open>\<open>BookingData\<close>, as both engines build it from the arguments.\<close>

record booking_data =
  name :: "string option"
  phone :: "string option"
  email :: "string option"
  address :: "string option"
  deviceType :: "string option"
  serviceType :: "string option"
  description :: "string option"

definition bookingData :: "(string \<rightharpoonup> string) \<Rightarrow> booking_data" where
  "bookingData args =
     \<lparr>name = args ''name'', phone = args ''phone'', email = args ''email'',
      address = args ''address'', deviceType = args ''deviceType'',
      serviceType = args ''serviceType'', description = args ''issue''\<rparr>"

text \<open>
  The acknowledgment of a call.  The voice engine sends \<open>{id, name, response: {result}}\<close>,
  the text engine \<open>{functionResponse: {name, response: {result}}}\<close>, without an id.
\<close>

record function_response =
  fr_id :: "string option"
  fr_name :: string
  fr_result :: string

text \<open>
  Calls that leave the component are recorded, in order, in a trace: the booking-form
  collaborator, the setter of the contact link, the sends on the session, the audio nodes
  and the capture device.
\<close>

datatype effect =
    OpenBookingForm booking_data
  | SetWhatsappUrl string
  | SendMessageStream string
  | SendMessage function_response
  | SendToolResponse "function_response list"
  | SendRealtimeInputText string
  | SendRealtimeInputMedia "real list"
  | SourceStart nat real real
  | SourceStop nat
  | StopTracks
  | DisconnectSource
  | DisconnectProcessor
  | CloseInputContext
  | CloseOutputContext
  | RequestAnimationFrame nat
  | CancelAnimationFrame nat

text \<open>A call that may throw (or a promise that may reject).\<close>

datatype 'a outcome = Returns 'a | Throws

section \<open>Text engine: handleSendMessage\<close>

text \<open>
  One element of the response stream (\<open>GenerateContentResponse\<close>): the \<open>functionCall\<close> field
  of each part of \<open>candidates?.[0]?.content?.parts\<close> (\<open>None\<close> when the chain is undefined),
  and the value of the SDK's \<open>text\<close> getter.
\<close>

record gen_chunk =
  g_parts :: "function_call option list option"
  g_text :: "string option"

text \<open>\<open>parts?.filter(part => part.functionCall)?.map(p => p.functionCall)\<close>\<close>

definition functionCalls :: "gen_chunk \<Rightarrow> function_call list option" where
  "functionCalls c = map_option (\<lambda>ps. map the (filter (\<lambda>p. p \<noteq> None) ps)) (g_parts c)"

text \<open>
  The chat session is the remote service.  Its behaviour is an input of the model:
  what \<open>sendMessageStream\<close> gives (it throws, or it returns a stream whose every step
  yields a chunk or throws), and what the k-th \<open>sendMessage\<close> of a tool response gives
  (it throws, or it returns a response whose \<open>text\<close> is a string or undefined).
\<close>

record service =
  svc_stream :: "gen_chunk outcome list outcome"
  svc_ack :: "nat \<Rightarrow> string option outcome"

record chat_state =
  messages :: "message list"
  inputValue :: string
  isLoading :: bool
  chatSession :: bool
  error :: "string option"
  chat_effects :: "effect list"

definition initial_chat :: chat_state where
  "initial_chat =
     \<lparr>messages = [\<lparr>m_id = ''1'', m_role = ''model'',
         m_text = ''Apple911 Neural Link Active. I am Tumelo, your digital diagnostic unit. Please state your name so I may address you properly.''\<rparr>],
      inputValue = '''', isLoading = False, chatSession = False, error = None,
      chat_effects = []\<rparr>"

text \<open>\<open>prev.map(msg => msg.id === botMsgId ? { ...msg, text: fullResponseText } : msg)\<close>\<close>

definition set_bot_text :: "string \<Rightarrow> string \<Rightarrow> message list \<Rightarrow> message list" where
  "set_bot_text botMsgId fullResponseText prev =
     map (\<lambda>msg. if m_id msg = botMsgId then msg\<lparr>m_text := fullResponseText\<rparr> else msg) prev"

text \<open>A string or undefined used as a condition: undefined and the empty string are falsy.\<close>

definition truthy :: "string option \<Rightarrow> bool" where
  "truthy v = (case v of None \<Rightarrow> False | Some t \<Rightarrow> t \<noteq> '''')"

text \<open>
  \<open>for (const call of functionCalls)\<close>.  The loop carries the component state, the local
  \<open>fullResponseText\<close> and the number of tool responses sent so far (the index into
  \<open>svc_ack\<close>).  \<open>Inl\<close> is an exception leaving the loop, with the state at that moment:
  the TypeError of \<open>args.name\<close> when the call has no arguments, or the rejection of
  \<open>sendMessage\<close>.
\<close>

fun call_loop ::
  "service \<Rightarrow> string \<Rightarrow> function_call list \<Rightarrow> chat_state \<times> string \<times> nat
     \<Rightarrow> chat_state + chat_state \<times> string \<times> nat" where
  "call_loop svc botMsgId [] frame = Inr frame"
| "call_loop svc botMsgId (call # calls) (st, fullResponseText, k) =
     (if fc_name call = ''open_booking_form''
      then
        (case fc_args call of
           None \<Rightarrow> Inl st
         | Some args \<Rightarrow>
             let st1 = st\<lparr>chat_effects := chat_effects st @
                         [OpenBookingForm (bookingData args),
                          SendMessage \<lparr>fr_id = None, fr_name = ''open_booking_form'',
                                       fr_result = ''Form Opened with prefilled data.''\<rparr>]\<rparr>
             in (case svc_ack svc k of
                   Throws \<Rightarrow> Inl st1
                 | Returns toolResp_text \<Rightarrow>
                     if truthy toolResp_text
                     then let full = fullResponseText @ the toolResp_text
                          in call_loop svc botMsgId calls
                               (st1\<lparr>messages := set_bot_text botMsgId full (messages st1)\<rparr>,
                                full, Suc k)
                     else call_loop svc botMsgId calls (st1, fullResponseText, Suc k)))
      else call_loop svc botMsgId calls (st, fullResponseText, k))"

text \<open>The body of \<open>for await (const chunk of result)\<close>.\<close>

definition chunkText :: "gen_chunk \<Rightarrow> string" where
  "chunkText c = (if truthy (g_text c) then the (g_text c) else '''')"

definition chunk_step ::
  "service \<Rightarrow> string \<Rightarrow> gen_chunk \<Rightarrow> chat_state \<times> string \<times> nat
     \<Rightarrow> chat_state + chat_state \<times> string \<times> nat" where
  "chunk_step svc botMsgId c frame =
     (case (case functionCalls c of
              None \<Rightarrow> Inr frame
            | Some calls \<Rightarrow>
                if length calls > 0 then call_loop svc botMsgId calls frame else Inr frame) of
        Inl st \<Rightarrow> Inl st
      | Inr (st, fullResponseText, k) \<Rightarrow>
          let full = fullResponseText @ chunkText c
          in Inr (st\<lparr>messages := set_bot_text botMsgId full (messages st)\<rparr>, full, k))"

fun stream_loop ::
  "service \<Rightarrow> string \<Rightarrow> gen_chunk outcome list \<Rightarrow> chat_state \<times> string \<times> nat
     \<Rightarrow> chat_state + chat_state \<times> string \<times> nat" where
  "stream_loop svc botMsgId [] frame = Inr frame"
| "stream_loop svc botMsgId (Throws # rest) (st, fullResponseText, k) = Inl st"
| "stream_loop svc botMsgId (Returns c # rest) frame =
     (case chunk_step svc botMsgId c frame of
        Inl st \<Rightarrow> Inl st
      | Inr frame' \<Rightarrow> stream_loop svc botMsgId rest frame')"

text \<open>The \<open>catch\<close> block followed by \<open>finally\<close>.\<close>

definition catch_finally :: "chat_state \<Rightarrow> chat_state" where
  "catch_finally st = st\<lparr>error := Some ''Data Stream Interrupted.'', isLoading := False\<rparr>"

text \<open>
  \<open>handleSendMessage(text)\<close>.  \<open>userMsgId\<close> is \<open>Date.now().toString()\<close> at the call and
  \<open>botMsgId\<close> is \<open>(Date.now() + 1).toString()\<close> once the stream is open.
\<close>

definition handleSendMessage ::
  "service \<Rightarrow> string \<Rightarrow> string \<Rightarrow> string \<Rightarrow> chat_state \<Rightarrow> chat_state" where
  "handleSendMessage svc userMsgId botMsgId txt st =
     (if trim txt = '''' \<or> \<not> chatSession st \<or> isLoading st then st
      else
        let st1 = st\<lparr>messages := messages st @
                        [\<lparr>m_id = userMsgId, m_role = ''user'', m_text = txt\<rparr>],
                     inputValue := '''', isLoading := True, error := None,
                     chat_effects := chat_effects st @ [SendMessageStream txt]\<rparr>
        in (case svc_stream svc of
              Throws \<Rightarrow> catch_finally st1
            | Returns result \<Rightarrow>
                let st2 = st1\<lparr>messages := messages st1 @
                                [\<lparr>m_id = botMsgId, m_role = ''model'', m_text = ''''\<rparr>]\<rparr>
                in (case stream_loop svc botMsgId result (st2, '''', 0) of
                      Inl st3 \<Rightarrow> catch_finally st3
                    | Inr (st3, fullResponseText, k) \<Rightarrow> st3\<lparr>isLoading := False\<rparr>)))"

section \<open>Numbers\<close>

text \<open>
  Times are JavaScript numbers: IEEE 754 binary64.  The times of the audio clock are not
  negative, and a finite double that is not negative is a multiple of \<open>2 powr -1074\<close> with
  at most 53 significant bits.  Such a value is kept as the real number it denotes, and
  \<open>+\<close> on two of them is the exact sum rounded to the nearest double, ties to the even
  significand.  A sum of \<open>2 ^ 1024\<close> or more, which the source would give as \<open>Infinity\<close>, is
  not modelled.

  \<open>bits m\<close> is the number of binary digits of \<open>m\<close>; \<open>rnd m\<close> rounds the natural number
  \<open>m\<close> to 53 significant bits.
\<close>

fun bits :: "nat \<Rightarrow> nat" where
  "bits m = (if m = 0 then 0 else Suc (bits (m div 2)))"

declare bits.simps [simp del]

definition rnd :: "nat \<Rightarrow> nat" where
  "rnd m =
     (if bits m \<le> 53 then m
      else
        let sh = bits m - 53; q = m div 2 ^ sh; r = m mod 2 ^ sh; h = 2 ^ (sh - 1)
        in (if r < h \<or> (r = h \<and> even q) then q else q + 1) * 2 ^ sh)"

definition grid :: real where
  "grid = 2 ^ 1074"

definition ticks :: "real \<Rightarrow> nat" where
  "ticks x = nat \<lfloor>x * grid\<rfloor>"

definition dround :: "real \<Rightarrow> real" where
  "dround x = real (rnd (ticks x)) / grid"

text \<open>\<open>x + y\<close> on doubles.\<close>

definition dadd :: "real \<Rightarrow> real \<Rightarrow> real" where
  "dadd x y = dround (x + y)"

text \<open>The real numbers that are doubles (finite and not negative).\<close>

definition is_double :: "real \<Rightarrow> bool" where
  "is_double x = (0 \<le> x \<and> dround x = x)"

section \<open>Voice engine: data (LiveVoiceAgent.tsx)\<close>

text \<open>
  \<open>encodeURIComponent\<close> on code units below 256: the unreserved characters
  \<open>A-Z a-z 0-9 - _ . ! ~ * ' ( )\<close> stay, every other one becomes the percent-encoded
  bytes of its UTF-8 form (one byte below 128, two bytes from 128 on).
\<close>

definition unreserved :: "char \<Rightarrow> bool" where
  "unreserved c =
     (let n = (of_char c :: nat)
      in (65 \<le> n \<and> n \<le> 90) \<or> (97 \<le> n \<and> n \<le> 122) \<or> (48 \<le> n \<and> n \<le> 57) \<or>
         n \<in> {45, 95, 46, 33, 126, 42, 39, 40, 41})"

definition hex_digit :: "nat \<Rightarrow> char" where
  "hex_digit n = ''0123456789ABCDEF'' ! (n mod 16)"

definition percent :: "nat \<Rightarrow> string" where
  "percent b = [CHR ''%'', hex_digit (b div 16), hex_digit b]"

definition encode_unit :: "char \<Rightarrow> string" where
  "encode_unit c =
     (let n = (of_char c :: nat)
      in if unreserved c then [c]
         else if n < 128 then percent n
         else percent (192 + n div 64) @ percent (128 + n mod 64))"

definition encodeURIComponent :: "string option \<Rightarrow> string" where
  "encodeURIComponent v =
     concat (map encode_unit (case v of None \<Rightarrow> ''undefined'' | Some s \<Rightarrow> s))"

datatype status = Disconnected | Connecting | Connected | Error

text \<open>
  An \<open>AudioBufferSourceNode\<close> created by the playback path: its identity, the time given
  to \<open>source.start\<close> and the duration of its buffer.  Times are the seconds of
  \<open>AudioContext.currentTime\<close>: doubles, kept as the real numbers they denote.
\<close>

record audio_source =
  src_id :: nat
  startAt :: real
  duration :: real

text \<open>
  The audio of a message: the base64 string at
  \<open>serverContent?.modelTurn?.parts?.[0]?.inlineData?.data\<close>, together with the duration
  of the buffer that \<open>decodeAudioData\<close> (utils/audioUtils) returns for it.
\<close>

record inline_audio =
  data :: string
  decodedDuration :: real

text \<open>
  A \<open>LiveServerMessage\<close>: whether \<open>serverContent?.interrupted\<close> is truthy, the calls of
  \<open>message.toolCall\<close> when it is present, and the audio when the chain above is defined.
\<close>

record live_message =
  interrupted :: bool
  toolCall :: "function_call list option"
  inlineData :: "inline_audio option"

text \<open>
  The component: its React state (\<open>isConnected\<close>, \<open>isMuted\<close>, \<open>status\<close>, \<open>whatsappUrl\<close>), its
  refs (\<open>True\<close> or \<open>Some\<close> when \<open>.current\<close> is not null) and the trace of effects.

  A function of the component is a closure of the render that created it.  The callbacks of
  a session are created by the \<open>startSession\<close> that an effect with dependencies
  \<open>[isOpen]\<close> calls, so the \<open>isMuted\<close> they read is the constant of that render:
  \<open>sessionIsMuted\<close>.  \<open>processorRef\<close> holds, for the installed \<open>onaudioprocess\<close> handler, the
  \<open>isMuted\<close> of its closure.  \<open>appleLogoRef\<close> is the ref of the svg that the component
  renders while it is open.  \<open>freshSource\<close> numbers the source nodes as they are created.
\<close>

record voice_state =
  isConnected :: bool
  isMuted :: bool
  status :: status
  whatsappUrl :: string
  inputAudioContextRef :: bool
  outputAudioContextRef :: bool
  streamRef :: bool
  processorRef :: "bool option"
  sourceRef :: bool
  nextStartTimeRef :: real
  sourcesRef :: "audio_source list"
  analyzerRef :: bool
  animationFrameRef :: "nat option"
  appleLogoRef :: bool
  sessionRef :: bool
  sessionPromiseRef :: bool
  sessionIsMuted :: bool
  freshSource :: nat
  effects :: "effect list"

definition initial_voice :: voice_state where
  "initial_voice =
     \<lparr>isConnected = False, isMuted = False, status = Disconnected,
      whatsappUrl = ''https://wa.me/27817463629'',
      inputAudioContextRef = False, outputAudioContextRef = False, streamRef = False,
      processorRef = None, sourceRef = False, nextStartTimeRef = 0, sourcesRef = [],
      analyzerRef = False, animationFrameRef = None, appleLogoRef = False,
      sessionRef = False, sessionPromiseRef = False, sessionIsMuted = False,
      freshSource = 0, effects = []\<rparr>"

text \<open>The render with \<open>isOpen\<close> attaches the svg to its ref, before any effect runs.\<close>

definition open_panel :: "voice_state \<Rightarrow> voice_state" where
  "open_panel st = st\<lparr>appleLogoRef := True\<rparr>"

section \<open>Voice engine: session set-up, capture and mute\<close>

text \<open>
  \<open>startSession\<close>: \<open>apiKey\<close> says whether \<open>process.env.API_KEY\<close> is set, \<open>resolves\<close> whether
  the promise of \<open>ai.live.connect\<close> resolves.  The callbacks given to \<open>connect\<close> close over
  this render's \<open>isMuted\<close>.
\<close>

definition startSession :: "bool \<Rightarrow> bool \<Rightarrow> voice_state \<Rightarrow> voice_state" where
  "startSession apiKey resolves st =
     (let st1 = st\<lparr>status := Connecting\<rparr>
      in if \<not> apiKey then st1\<lparr>status := Error\<rparr>
         else
           let st2 = st1\<lparr>inputAudioContextRef := True, outputAudioContextRef := True,
                         analyzerRef := True, sessionIsMuted := isMuted st,
                         sessionPromiseRef := True\<rparr>
           in if resolves then st2\<lparr>sessionRef := True\<rparr> else st2\<lparr>status := Error\<rparr>)"

text \<open>\<open>startInputStream\<close>: \<open>mic\<close> says whether \<open>getUserMedia\<close> resolves.\<close>

definition startInputStream :: "bool \<Rightarrow> voice_state \<Rightarrow> voice_state" where
  "startInputStream mic st =
     (if \<not> inputAudioContextRef st \<or> \<not> sessionPromiseRef st then st
      else if \<not> mic then st
      else st\<lparr>streamRef := True, sourceRef := True,
              processorRef := Some (sessionIsMuted st)\<rparr>)"

definition onopen :: "bool \<Rightarrow> voice_state \<Rightarrow> voice_state" where
  "onopen mic st =
     (let st1 = startInputStream mic (st\<lparr>status := Connected, isConnected := True\<rparr>)
      in if sessionPromiseRef st1
         then st1\<lparr>effects := effects st1 @
                [SendRealtimeInputText ''System: User connected. Introduce yourself warmly as Tumelo and ask for their name.'']\<rparr>
         else st1)"

text \<open>
  \<open>processor.onaudioprocess\<close> on one capture buffer: \<open>if (isMuted) return\<close> reads the
  \<open>isMuted\<close> of the handler's closure; otherwise the blob made from the buffer is sent when
  \<open>sessionPromiseRef.current\<close> is not null.  The blob is \<open>createPcmBlob(inputData)\<close>
  (utils/audioUtils); the trace records the buffer it is made from.
\<close>

definition onaudioprocess :: "real list \<Rightarrow> voice_state \<Rightarrow> voice_state" where
  "onaudioprocess inputData st =
     (case processorRef st of
        None \<Rightarrow> st
      | Some closureIsMuted \<Rightarrow>
          if closureIsMuted then st
          else if sessionPromiseRef st
               then st\<lparr>effects := effects st @ [SendRealtimeInputMedia inputData]\<rparr>
               else st)"

definition toggleMute :: "voice_state \<Rightarrow> voice_state" where
  "toggleMute st = st\<lparr>isMuted := \<not> isMuted st\<rparr>"

text \<open>
  The visualizer: \<open>draw\<close> returns at once without the analyser or the svg; otherwise it
  sets the style of the svg (not modelled) and records in \<open>animationFrameRef\<close> the id that
  \<open>requestAnimationFrame(draw)\<close> returns, here \<open>frame\<close>.  The effect with dependencies
  \<open>[isConnected]\<close> calls \<open>draw\<close> when connected and cancels the recorded frame otherwise.
\<close>

definition draw :: "nat \<Rightarrow> voice_state \<Rightarrow> voice_state" where
  "draw frame st =
     (if \<not> analyzerRef st \<or> \<not> appleLogoRef st then st
      else st\<lparr>animationFrameRef := Some frame,
              effects := effects st @ [RequestAnimationFrame frame]\<rparr>)"

definition visualizer_effect :: "nat \<Rightarrow> voice_state \<Rightarrow> voice_state" where
  "visualizer_effect frame st =
     (if isConnected st then draw frame st
      else (case animationFrameRef st of
              None \<Rightarrow> st
            | Some n \<Rightarrow>
                if n \<noteq> 0 then st\<lparr>effects := effects st @ [CancelAnimationFrame n]\<rparr> else st))"

section \<open>Voice engine: teardown\<close>

definition handleDisconnect :: "voice_state \<Rightarrow> voice_state" where
  "handleDisconnect st =
     st\<lparr>isConnected := False, status := Disconnected,
        effects := effects st @
          (if streamRef st then [StopTracks] else []) @
          (if sourceRef st then [DisconnectSource] else []) @
          (if processorRef st \<noteq> None then [DisconnectProcessor] else []) @
          (if inputAudioContextRef st then [CloseInputContext] else []) @
          (if outputAudioContextRef st then [CloseOutputContext] else []) @
          (case animationFrameRef st of
             None \<Rightarrow> []
           | Some n \<Rightarrow> if n \<noteq> 0 then [CancelAnimationFrame n] else []),
        sessionRef := False, sessionPromiseRef := False\<rparr>"

definition onclose :: "voice_state \<Rightarrow> voice_state" where
  "onclose st = handleDisconnect st"

definition onerror :: "voice_state \<Rightarrow> voice_state" where
  "onerror st = st\<lparr>status := Error\<rparr>"

section \<open>Voice engine: onmessage\<close>

text \<open>
  The interruption branch, at \<open>currentTime = now\<close>: every source of the set is stopped,
  the set is cleared, and the cursor is reset when the output context exists.
\<close>

definition interrupt :: "real \<Rightarrow> voice_state \<Rightarrow> voice_state" where
  "interrupt now st =
     st\<lparr>effects := effects st @ map (\<lambda>source. SourceStop (src_id source)) (sourcesRef st),
        sourcesRef := [],
        nextStartTimeRef := (if outputAudioContextRef st then now else nextStartTimeRef st)\<rparr>"

text \<open>
  The callback of \<open>message.toolCall.functionCalls.map\<close>: the response and the new state,
  or \<open>None\<close> when it throws: both recognised tools read a field of \<open>fc.args\<close> first, a
  TypeError when the call has no arguments.
\<close>

definition dispatch ::
  "function_call \<Rightarrow> voice_state \<Rightarrow> (function_response \<times> voice_state) option" where
  "dispatch fc st =
     (if fc_name fc = ''update_whatsapp_context''
      then
        (case fc_args fc of
           None \<Rightarrow> None
         | Some args \<Rightarrow>
             let url = ''https://wa.me/27817463629?text='' @ encodeURIComponent (args ''summary'')
             in Some (\<lparr>fr_id = fc_id fc, fr_name = fc_name fc,
                       fr_result = ''WhatsApp Link Updated successfully.''\<rparr>,
                      st\<lparr>whatsappUrl := url, effects := effects st @ [SetWhatsappUrl url]\<rparr>))
      else if fc_name fc = ''open_booking_form''
      then
        (case fc_args fc of
           None \<Rightarrow> None
         | Some args \<Rightarrow>
             Some (\<lparr>fr_id = fc_id fc, fr_name = fc_name fc,
                    fr_result = ''Booking Form Opened/Updated on User Screen.''\<rparr>,
                   st\<lparr>effects := effects st @ [OpenBookingForm (bookingData args)]\<rparr>))
      else Some (\<lparr>fr_id = fc_id fc, fr_name = fc_name fc, fr_result = ''Unknown tool''\<rparr>, st))"

text \<open>
  The \<open>map\<close> over the calls, in order.  \<open>Inl\<close> is the exception of a callback leaving the
  \<open>map\<close>, with the state at that moment; \<open>Inr\<close> the responses and the state.
\<close>

fun dispatch_all ::
  "function_call list \<Rightarrow> voice_state
     \<Rightarrow> voice_state + function_response list \<times> voice_state" where
  "dispatch_all [] st = Inr ([], st)"
| "dispatch_all (fc # fcs) st =
     (case dispatch fc st of
        None \<Rightarrow> Inl st
      | Some (r, st1) \<Rightarrow>
          (case dispatch_all fcs st1 of
             Inl st2 \<Rightarrow> Inl st2
           | Inr (rs, st2) \<Rightarrow> Inr (r # rs, st2)))"

text \<open>
  The tool-call branch: the responses are sent in one batch on the session.  An exception
  of the \<open>map\<close> leaves the handler (\<open>Inl\<close>): nothing is sent.
\<close>

definition handle_tool_calls :: "function_call list \<Rightarrow> voice_state \<Rightarrow> voice_state + voice_state" where
  "handle_tool_calls fcs st =
     (case dispatch_all fcs st of
        Inl st1 \<Rightarrow> Inl st1
      | Inr (responses, st1) \<Rightarrow>
          Inr (if sessionPromiseRef st1
               then st1\<lparr>effects := effects st1 @ [SendToolResponse responses]\<rparr>
               else st1))"

text \<open>
  The playback path on a decoded buffer of duration \<open>d\<close>, at \<open>currentTime = now\<close>.
  \<open>source.onended\<close> removes the source from the set.
\<close>

definition schedule :: "real \<Rightarrow> real \<Rightarrow> voice_state \<Rightarrow> voice_state" where
  "schedule now d st =
     (let start = max (nextStartTimeRef st) now;
          source = \<lparr>src_id = freshSource st, startAt = start, duration = d\<rparr>
      in st\<lparr>nextStartTimeRef := dadd start d,
            sourcesRef := sourcesRef st @ [source],
            freshSource := Suc (freshSource st),
            effects := effects st @ [SourceStart (freshSource st) start d]\<rparr>)"

definition onended :: "nat \<Rightarrow> voice_state \<Rightarrow> voice_state" where
  "onended i st = st\<lparr>sourcesRef := filter (\<lambda>source. src_id source \<noteq> i) (sourcesRef st)\<rparr>"

text \<open>
  \<open>onmessage\<close>, one message handled to its end; \<open>now\<close> is the \<open>currentTime\<close> that the
  handler reads (in the interruption branch, or after the buffer is decoded).  An exception
  in the tool-call branch ends the handler there.
\<close>

definition onmessage :: "real \<Rightarrow> live_message \<Rightarrow> voice_state \<Rightarrow> voice_state" where
  "onmessage now message st =
     (if interrupted message then interrupt now st
      else
        (case (case toolCall message of
                 None \<Rightarrow> Inr st
               | Some fcs \<Rightarrow> handle_tool_calls fcs st) of
           Inl st1 \<Rightarrow> st1
         | Inr st1 \<Rightarrow>
             (case inlineData message of
                None \<Rightarrow> st1
              | Some audio \<Rightarrow>
                  if data audio \<noteq> '''' \<and> outputAudioContextRef st1
                  then schedule now (decodedDuration audio) st1
                  else st1)))"

section \<open>Notions used in the properties\<close>

subsection \<open>The history\<close>

text \<open>The role at position \<open>i\<close> of a history that alternates from \<open>user\<close>.\<close>

definition role_at :: "nat \<Rightarrow> string" where
  "role_at i = (if even i then ''user'' else ''model'')"

definition alternating :: "content list \<Rightarrow> bool" where
  "alternating h = (\<forall>i < length h. c_role (h ! i) = role_at i)"

text \<open>
  A persisted log with the seed turn, a turn of blank text and two consecutive model turns,
  ending on a user turn.
\<close>

definition log_ABC :: "message list" where
  "log_ABC = [\<lparr>m_id = ''1'', m_role = ''model'', m_text = ''Hello''\<rparr>,
     \<lparr>m_id = ''10'', m_role = ''user'', m_text = ''A''\<rparr>,
     \<lparr>m_id = ''11'', m_role = ''model'', m_text = ''  ''\<rparr>,
     \<lparr>m_id = ''12'', m_role = ''model'', m_text = ''B''\<rparr>,
     \<lparr>m_id = ''13'', m_role = ''model'', m_text = ''B2''\<rparr>,
     \<lparr>m_id = ''14'', m_role = ''user'', m_text = ''C''\<rparr>]"

subsection \<open>The timeline\<close>

text \<open>
  A run of the playback path on a sequence of clips: each clip is the \<open>currentTime\<close> read
  when it is scheduled and the duration of its buffer.
\<close>

fun schedule_all :: "(real \<times> real) list \<Rightarrow> voice_state \<Rightarrow> voice_state" where
  "schedule_all [] st = st"
| "schedule_all ((now, d) # clips) st = schedule_all clips (schedule now d st)"

text \<open>
  The windows (start, duration) that the rule "start at the later of the cursor and now,
  then advance the cursor by the duration" (the sum being that of doubles) assigns to a
  sequence of clips.
\<close>

fun timeline :: "real \<Rightarrow> (real \<times> real) list \<Rightarrow> (real \<times> real) list" where
  "timeline nextStartTime [] = []"
| "timeline nextStartTime ((now, d) # clips) =
     (max nextStartTime now, d) # timeline (dadd (max nextStartTime now) d) clips"

definition window :: "audio_source \<Rightarrow> real \<times> real" where
  "window source = (startAt source, duration source)"

text \<open>
  The cursor that a window leaves (its start plus its duration, as the code computes it)
  is no later than the start of another window.
\<close>

definition before :: "real \<times> real \<Rightarrow> real \<times> real \<Rightarrow> bool" where
  "before a b = (dadd (fst a) (snd a) \<le> fst b)"

text \<open>The times and durations of a sequence of clips are doubles.\<close>

definition double_clips :: "(real \<times> real) list \<Rightarrow> bool" where
  "double_clips clips = (\<forall>c \<in> set clips. is_double (fst c) \<and> is_double (snd c))"

text \<open>
  The operations on the timeline in any order: scheduling a clip, an interruption, and the
  natural end of a source.
\<close>

datatype playback_event = Schedule real real | Interrupt real | Ended nat

fun play :: "playback_event \<Rightarrow> voice_state \<Rightarrow> voice_state" where
  "play (Schedule now d) st = schedule now d st"
| "play (Interrupt now) st = interrupt now st"
| "play (Ended i) st = onended i st"

fun double_event :: "playback_event \<Rightarrow> bool" where
  "double_event (Schedule now d) = (is_double now \<and> is_double d)"
| "double_event (Interrupt now) = is_double now"
| "double_event (Ended i) = True"

text \<open>
  The sources of the set are in timeline order, each starting no earlier than the cursor
  that the one before it left, and none has left a cursor after the current one.
\<close>

definition timeline_ok :: "voice_state \<Rightarrow> bool" where
  "timeline_ok st =
     (sorted_wrt before (map window (sourcesRef st)) \<and>
      (\<forall>source \<in> set (sourcesRef st).
         dadd (startAt source) (duration source) \<le> nextStartTimeRef st) \<and>
      is_double (nextStartTimeRef st))"

text \<open>Three clips: the second arrives while the first plays, the third after a pause.\<close>

definition three_clips :: "(real \<times> real) list" where
  "three_clips = [(1, 2), (2, 1), (10, 1)]"

text \<open>
  A time given in units of \<open>2 powr -57\<close> seconds.  The double nearest to 0.04, the
  duration of a buffer of 960 frames at 24000 Hz, is 5764607523034235 of these units.
\<close>

definition u57 :: "nat \<Rightarrow> real" where
  "u57 k = real k / 2 ^ 57"

definition d04 :: real where
  "d04 = u57 5764607523034235"

text \<open>Four such clips that arrive together, at time 0.\<close>

definition four_clips :: "(real \<times> real) list" where
  "four_clips = [(0, d04), (0, d04), (0, d04), (0, d04)]"

subsection \<open>Tool invocations in the voice engine\<close>

text \<open>
  The effects of dispatching a tool invocation: the booking form, the contact link and the
  acknowledgment sent on the session.
\<close>

fun is_tool_effect :: "effect \<Rightarrow> bool" where
  "is_tool_effect (OpenBookingForm b) = True"
| "is_tool_effect (SetWhatsappUrl u) = True"
| "is_tool_effect (SendToolResponse rs) = True"
| "is_tool_effect (SendMessage r) = True"
| "is_tool_effect _ = False"

text \<open>The side effects of the two tools: the booking form and the contact link.\<close>

fun is_side_effect :: "effect \<Rightarrow> bool" where
  "is_side_effect (OpenBookingForm b) = True"
| "is_side_effect (SetWhatsappUrl u) = True"
| "is_side_effect _ = False"

text \<open>The tools that the voice engine recognises.\<close>

definition recognised :: "function_call \<Rightarrow> bool" where
  "recognised fc =
     (fc_name fc = ''update_whatsapp_context'' \<or> fc_name fc = ''open_booking_form'')"

text \<open>An invocation of a recognised tool that carries no arguments.\<close>

definition no_args :: "function_call \<Rightarrow> bool" where
  "no_args fc = (recognised fc \<and> fc_args fc = None)"

text \<open>
  The side effect that belongs to an invocation: the contact link with the encoded summary,
  the booking form with the draft made from the arguments, none for another tool.
\<close>

definition side_effects :: "function_call \<Rightarrow> effect list" where
  "side_effects fc =
     (if fc_name fc = ''update_whatsapp_context''
      then [SetWhatsappUrl (''https://wa.me/27817463629?text='' @
              encodeURIComponent (the (fc_args fc) ''summary''))]
      else if fc_name fc = ''open_booking_form''
      then [OpenBookingForm (bookingData (the (fc_args fc)))]
      else [])"

text \<open>The result that belongs to an invocation, under its own id and name.\<close>

definition response :: "function_call \<Rightarrow> function_response" where
  "response fc =
     \<lparr>fr_id = fc_id fc, fr_name = fc_name fc,
      fr_result =
        (if fc_name fc = ''update_whatsapp_context'' then ''WhatsApp Link Updated successfully.''
         else if fc_name fc = ''open_booking_form''
         then ''Booking Form Opened/Updated on User Screen.''
         else ''Unknown tool'')\<rparr>"


text \<open>The state when the map over the calls, or the tool-call branch, ends.\<close>

fun batch_state :: "voice_state + function_response list \<times> voice_state \<Rightarrow> voice_state" where
  "batch_state (Inl st) = st"
| "batch_state (Inr (rs, st)) = st"

fun branch_state :: "voice_state + voice_state \<Rightarrow> voice_state" where
  "branch_state (Inl st) = st"
| "branch_state (Inr st) = st"

text \<open>
  A session that is live: the panel is open, the session is started with the key set, the
  connection resolves, the microphone is granted, and the visualizer has requested its
  first frame.
\<close>

definition live_voice :: voice_state where
  "live_voice =
     visualizer_effect 1 (onopen True (startSession True True (open_panel initial_voice)))"

text \<open>A live session in which two clips are in the source set.\<close>

definition playing_voice :: voice_state where
  "playing_voice = schedule 1 2 (schedule 0 1 live_voice)"

text \<open>A booking call, and an interrupted message that carries it together with audio.\<close>

definition booking_call :: function_call where
  "booking_call = \<lparr>fc_id = Some ''call-1'', fc_name = ''open_booking_form'',
     fc_args = Some [''name'' \<mapsto> ''Sam'', ''issue'' \<mapsto> ''cracked screen'']\<rparr>"

definition interrupted_message :: live_message where
  "interrupted_message = \<lparr>interrupted = True, toolCall = Some [booking_call],
     inlineData = Some \<lparr>data = ''AAAA'', decodedDuration = 1\<rparr>\<rparr>"


text \<open>A message of the voice service that carries one booking call.\<close>

definition booking_message :: live_message where
  "booking_message = \<lparr>interrupted = False, toolCall = Some [booking_call], inlineData = None\<rparr>"

text \<open>A call of a tool that no engine declares, and a call of the contact-link tool.\<close>

definition unknown_call :: function_call where
  "unknown_call = \<lparr>fc_id = Some ''call-2'', fc_name = ''reboot_device'', fc_args = None\<rparr>"

definition whatsapp_call :: function_call where
  "whatsapp_call = \<lparr>fc_id = Some ''call-3'', fc_name = ''update_whatsapp_context'',
     fc_args = Some [''summary'' \<mapsto> ''iPhone 12: cracked screen'']\<rparr>"



text \<open>What \<open>handleDisconnect\<close> does to the devices and nodes of a state.\<close>

definition teardown :: "voice_state \<Rightarrow> effect list" where
  "teardown st =
     (if streamRef st then [StopTracks] else []) @
     (if sourceRef st then [DisconnectSource] else []) @
     (if processorRef st \<noteq> None then [DisconnectProcessor] else []) @
     (if inputAudioContextRef st then [CloseInputContext] else []) @
     (if outputAudioContextRef st then [CloseOutputContext] else []) @
     (case animationFrameRef st of
        None \<Rightarrow> []
      | Some n \<Rightarrow> if n \<noteq> 0 then [CancelAnimationFrame n] else [])"

subsection \<open>The text engine\<close>

text \<open>The component state when a loop of \<open>handleSendMessage\<close> ends, normally or by an exception.\<close>

fun state_of :: "chat_state + chat_state \<times> string \<times> nat \<Rightarrow> chat_state" where
  "state_of (Inl st) = st"
| "state_of (Inr (st, fullResponseText, k)) = st"

definition booking_calls :: "function_call list \<Rightarrow> function_call list" where
  "booking_calls cs = filter (\<lambda>call. fc_name call = ''open_booking_form'') cs"

definition calls_of :: "gen_chunk \<Rightarrow> function_call list" where
  "calls_of c = (case functionCalls c of None \<Rightarrow> [] | Some cs \<Rightarrow> cs)"

text \<open>An \<open>open_booking_form\<close> call that carries no arguments.\<close>

definition text_no_args :: "function_call \<Rightarrow> bool" where
  "text_no_args call = (fc_name call = ''open_booking_form'' \<and> fc_args call = None)"

text \<open>What the text engine sends for one booking call.\<close>

definition text_ack :: function_response where
  "text_ack = \<lparr>fr_id = None, fr_name = ''open_booking_form'',
                fr_result = ''Form Opened with prefilled data.''\<rparr>"

text \<open>
  What belongs to a call in the text engine: for a booking call the form with the draft
  made from the arguments, then the acknowledgment; nothing for another tool.
\<close>

definition text_effects :: "function_call \<Rightarrow> effect list" where
  "text_effects call =
     (if fc_name call = ''open_booking_form''
      then [OpenBookingForm (bookingData (the (fc_args call))), SendMessage text_ack]
      else [])"

text \<open>The side effect among them.\<close>

definition text_side_effects :: "function_call \<Rightarrow> effect list" where
  "text_side_effects call =
     (if fc_name call = ''open_booking_form''
      then [OpenBookingForm (bookingData (the (fc_args call)))]
      else [])"

text \<open>The continuation text of the k-th tool-acknowledgment exchange.\<close>

definition ack_text :: "service \<Rightarrow> nat \<Rightarrow> string" where
  "ack_text svc k =
     (case svc_ack svc k of Returns (Some t) \<Rightarrow> t | Returns None \<Rightarrow> '''' | Throws \<Rightarrow> '''')"

text \<open>The continuation texts of \<open>n\<close> consecutive exchanges, from the k-th on.\<close>

fun ack_texts :: "service \<Rightarrow> nat \<Rightarrow> nat \<Rightarrow> string" where
  "ack_texts svc k 0 = ''''"
| "ack_texts svc k (Suc n) = ack_text svc k @ ack_texts svc (Suc k) n"

text \<open>
  The order of the spec: fragment by fragment in receipt order, and within a fragment first
  the continuation texts of its tool acknowledgments, then the fragment's own text.
  \<open>k\<close> counts the acknowledgments made before.
\<close>

fun narrative :: "service \<Rightarrow> nat \<Rightarrow> gen_chunk list \<Rightarrow> string" where
  "narrative svc k [] = ''''"
| "narrative svc k (c # cs) =
     ack_texts svc k (length (booking_calls (calls_of c))) @
     chunkText c @ narrative svc (k + length (booking_calls (calls_of c))) cs"


text \<open>The placeholder turn is the last message and holds the text assembled so far.\<close>

definition placeholder :: "string \<Rightarrow> string \<Rightarrow> chat_state \<Rightarrow> bool" where
  "placeholder botMsgId fullResponseText st =
     (messages st \<noteq> [] \<and> m_id (last (messages st)) = botMsgId \<and>
      m_role (last (messages st)) = ''model'' \<and>
      m_text (last (messages st)) = fullResponseText)"


text \<open>A chat with a session, and two services.\<close>

definition ready_chat :: chat_state where
  "ready_chat = initial_chat\<lparr>chatSession := True\<rparr>"

definition booking_chunks :: "gen_chunk list" where
  "booking_chunks =
     [\<lparr>g_parts = None, g_text = Some ''One moment. ''\<rparr>,
      \<lparr>g_parts = Some [Some booking_call, None], g_text = Some '' Anything else?''\<rparr>,
      \<lparr>g_parts = Some [None], g_text = Some '' Bye.''\<rparr>]"

definition svc_booking :: service where
  "svc_booking =
     \<lparr>svc_stream = Returns (map Returns booking_chunks),
      svc_ack = (\<lambda>k. Returns (Some ''The form is open.''))\<rparr>"

definition svc_unknown :: service where
  "svc_unknown =
     \<lparr>svc_stream = Returns [Returns \<lparr>g_parts = Some [Some unknown_call], g_text = Some ''Done.''\<rparr>],
      svc_ack = (\<lambda>k. Returns (Some ''The form is open.''))\<rparr>"



section \<open>The history sanitizer\<close>

lemma alternating_snoc:
  "alternating v \<Longrightarrow> c_role x = role_at (length v) \<Longrightarrow> alternating (v @ [x])"
  by (auto simp: alternating_def nth_append less_Suc_eq)

lemma role_at_flip:
  "(if role_at n = ''user'' then ''model'' else ''user'') = role_at (Suc n)"
  by (simp add: role_at_def)

lemma walk_alternating:
  "alternating v \<Longrightarrow> e = role_at (length v) \<Longrightarrow> walk e v ms = (e', v')
     \<Longrightarrow> alternating v' \<and> e' = role_at (length v')"
proof (induction ms arbitrary: e v)
  case Nil
  then show ?case by auto
next
  case (Cons msg ms)
  show ?case
  proof (cases "m_role msg = e")
    case True
    let ?x = "\<lparr>c_role = m_role msg, c_parts = [m_text msg]\<rparr>"
    have a: "alternating (v @ [?x])"
      using Cons.prems True by (intro alternating_snoc) simp_all
    have e: "(if e = ''user'' then ''model'' else ''user'') = role_at (length (v @ [?x]))"
      using Cons.prems(2) role_at_flip [of "length v"] by simp
    have w: "walk (if e = ''user'' then ''model'' else ''user'') (v @ [?x]) ms = (e', v')"
      using Cons.prems(3) True by simp
    show ?thesis by (rule Cons.IH [OF a e w])
  next
    case False
    then have "walk e v ms = (e', v')" using Cons.prems(3) by simp
    then show ?thesis using Cons.IH Cons.prems(1,2) by blast
  qed
qed

lemma alternating_walked: "alternating (walked ms)"
proof -
  obtain e' v' where w: "walk ''user'' [] (historyMessages ms) = (e', v')"
    by (cases "walk ''user'' [] (historyMessages ms)")
  have "alternating v'"
    using walk_alternating [OF _ _ w] by (simp add: alternating_def role_at_def)
  then show ?thesis by (simp add: walked_def w)
qed

lemma alternating_butlast: "alternating h \<Longrightarrow> alternating (butlast h)"
  by (simp add: alternating_def nth_butlast)

lemma alternating_last:
  "alternating h \<Longrightarrow> h \<noteq> [] \<Longrightarrow> c_role (last h) = role_at (length h - 1)"
  by (simp add: alternating_def last_conv_nth)

lemma alternating_sanitize: "alternating (sanitize ms)"
  by (simp add: sanitize_def Let_def alternating_walked alternating_butlast)

lemma sanitize_even: "even (length (sanitize ms))"
proof -
  let ?w = "walked ms"
  have a: "alternating ?w" by (rule alternating_walked)
  show ?thesis
  proof (cases "?w = []")
    case True
    then show ?thesis by (simp add: sanitize_def)
  next
    case False
    then have l: "c_role (last ?w) = role_at (length ?w - 1)"
      using a by (rule alternating_last [rotated])
    show ?thesis
    proof (cases "c_role (last ?w) = ''user''")
      case True
      then have "even (length ?w - 1)" using l by (simp add: role_at_def split: if_splits)
      then show ?thesis using True False by (simp add: sanitize_def)
    next
      case f: False
      then have "odd (length ?w - 1)" using l by (simp add: role_at_def split: if_splits)
      then have "even (length ?w)" using False by (cases ?w) auto
      then show ?thesis using f by (simp add: sanitize_def)
    qed
  qed
qed

text \<open>
  Every turn of the sanitized history is a turn of the log that is not the seed turn and
  whose text is not blank, with its role and text unchanged.
\<close>

lemma walk_from_log:
  "walk e v ms = (e', v') \<Longrightarrow> c \<in> set v' \<Longrightarrow>
     c \<in> set v \<or> (\<exists>m \<in> set ms. c = \<lparr>c_role = m_role m, c_parts = [m_text m]\<rparr>)"
proof (induction ms arbitrary: e v)
  case Nil
  then show ?case by simp
next
  case (Cons msg ms)
  show ?case
  proof (cases "m_role msg = e")
    case True
    then have "walk (if e = ''user'' then ''model'' else ''user'')
                 (v @ [\<lparr>c_role = m_role msg, c_parts = [m_text msg]\<rparr>]) ms = (e', v')"
      using Cons.prems(1) by simp
    from Cons.IH [OF this Cons.prems(2)] show ?thesis by auto
  next
    case False
    then have "walk e v ms = (e', v')" using Cons.prems(1) by simp
    from Cons.IH [OF this Cons.prems(2)] show ?thesis by auto
  qed
qed

lemma sanitize_from_log:
  assumes "c \<in> set (sanitize ms)"
  shows "\<exists>m \<in> set ms. m_id m \<noteq> ''1'' \<and> trim (m_text m) \<noteq> '''' \<and>
           c = \<lparr>c_role = m_role m, c_parts = [m_text m]\<rparr>"
proof -
  have "c \<in> set (walked ms)"
    using assms by (auto simp: sanitize_def Let_def dest: in_set_butlastD split: if_splits)
  moreover obtain e' v' where w: "walk ''user'' [] (historyMessages ms) = (e', v')"
    by (cases "walk ''user'' [] (historyMessages ms)")
  ultimately have "\<exists>m \<in> set (historyMessages ms). c = \<lparr>c_role = m_role m, c_parts = [m_text m]\<rparr>"
    using walk_from_log [OF w, of c] by (simp add: walked_def)
  then show ?thesis by (auto simp: historyMessages_def)
qed

text \<open>
  C1: for every persisted log, the history given to the service alternates
  \<open>user\<close>, \<open>model\<close>, \<open>user\<close>, ... from its first element, does not end on a \<open>user\<close> turn,
  and when the walk's result ends on \<open>user\<close> that last turn is the one removed.
\<close>

theorem sanitize_alternates:
  "(\<forall>i < length (sanitize ms).
      c_role (sanitize ms ! i) = (if even i then ''user'' else ''model'')) \<and>
   (sanitize ms \<noteq> [] \<longrightarrow> c_role (last (sanitize ms)) \<noteq> ''user'') \<and>
   (walked ms \<noteq> [] \<and> c_role (last (walked ms)) = ''user''
      \<longrightarrow> sanitize ms = butlast (walked ms))"
proof (intro conjI)
  show "\<forall>i < length (sanitize ms).
      c_role (sanitize ms ! i) = (if even i then ''user'' else ''model'')"
    using alternating_sanitize [of ms] by (simp add: alternating_def role_at_def)
  show "sanitize ms \<noteq> [] \<longrightarrow> c_role (last (sanitize ms)) \<noteq> ''user''"
  proof
    assume ne: "sanitize ms \<noteq> []"
    have "c_role (last (sanitize ms)) = role_at (length (sanitize ms) - 1)"
      using alternating_sanitize ne by (rule alternating_last)
    moreover have "odd (length (sanitize ms) - 1)"
      using sanitize_even [of ms] ne by (cases "sanitize ms") auto
    ultimately show "c_role (last (sanitize ms)) \<noteq> ''user''"
      by (simp add: role_at_def)
  qed
  show "walked ms \<noteq> [] \<and> c_role (last (walked ms)) = ''user''
      \<longrightarrow> sanitize ms = butlast (walked ms)"
    by (simp add: sanitize_def)
qed

lemma walked_ABC: "walked log_ABC = [\<lparr>c_role = ''user'', c_parts = [''A'']\<rparr>,
      \<lparr>c_role = ''model'', c_parts = [''B'']\<rparr>, \<lparr>c_role = ''user'', c_parts = [''C'']\<rparr>]"
  by (simp add: log_ABC_def walked_def historyMessages_def trim_def is_ws_def)

theorem sanitize_alternates_witness:
  "walked log_ABC \<noteq> [] \<and> c_role (last (walked log_ABC)) = ''user'' \<and>
   sanitize log_ABC = [\<lparr>c_role = ''user'', c_parts = [''A'']\<rparr>,
      \<lparr>c_role = ''model'', c_parts = [''B'']\<rparr>] \<and>
   (1::nat) < length (sanitize log_ABC) \<and> c_role (sanitize log_ABC ! 1) = ''model'' \<and>
   c_role (last (sanitize log_ABC)) \<noteq> ''user''"
  using sanitize_alternates [of log_ABC] by (simp add: walked_ABC)

section \<open>Rounding to a double\<close>

lemma bits_0 [simp]: "bits 0 = 0"
  by (simp add: bits.simps)

lemma bits_pos: "0 < m \<Longrightarrow> 0 < bits m"
  by (subst bits.simps) simp

lemma bits_bounds: "0 < m \<Longrightarrow> 2 ^ (bits m - 1) \<le> m \<and> m < 2 ^ bits m"
proof (induction m rule: bits.induct)
  case (1 m)
  show ?case
  proof (cases "m div 2 = 0")
    case True
    then have "m = 1" using "1.prems" by (simp add: div_eq_0_iff) 
    then show ?thesis by (simp add: bits.simps)
  next
    case False
    then have ih: "2 ^ (bits (m div 2) - 1) \<le> m div 2 \<and> m div 2 < 2 ^ bits (m div 2)"
      using "1.IH" "1.prems" by simp
    have b: "bits m = Suc (bits (m div 2))" using "1.prems" by (subst bits.simps) simp
    have p: "0 < bits (m div 2)" using False by (simp add: bits_pos)
    then obtain k where k: "bits (m div 2) = Suc k" by (cases "bits (m div 2)") auto
    have l: "2 ^ k \<le> m div 2" and u: "m div 2 < 2 ^ Suc k" using ih k by simp_all
    have "2 * 2 ^ k \<le> m" using l by linarith
    moreover have "m < 2 * 2 ^ Suc k" using u by linarith
    ultimately show ?thesis by (simp add: b k)
  qed
qed

lemma bits_eqI:
  assumes "0 < n" and "2 ^ (n - 1) \<le> m" and "m < 2 ^ n"
  shows "bits m = n"
proof -
  have m: "0 < m" 
  proof -
    have "(0::nat) < 2 ^ (n - 1)" by simp
    then show ?thesis using assms(2) by linarith
  qed
  note b = bits_bounds [OF m]
  have "(2::nat) ^ (bits m - 1) < 2 ^ n" using b assms(3) by linarith
  then have 1: "bits m - 1 < n" by (simp add: power_strict_increasing_iff)
  have "(2::nat) ^ (n - 1) < 2 ^ bits m" using b assms(2) by linarith
  then have 2: "n - 1 < bits m" by (simp add: power_strict_increasing_iff)
  show ?thesis using 1 2 assms(1) bits_pos [OF m] by linarith
qed

lemma bits_mono: "a \<le> b \<Longrightarrow> bits a \<le> bits b"
proof (cases "a = 0")
  case True
  then show ?thesis by simp
next
  case False
  assume ab: "a \<le> b"
  then have a: "0 < a" and b: "0 < b" using False by auto
  have "(2::nat) ^ (bits a - 1) < 2 ^ bits b"
    using bits_bounds [OF a] bits_bounds [OF b] ab by linarith
  then have "bits a - 1 < bits b" by (simp add: power_strict_increasing_iff)
  then show ?thesis by linarith
qed

lemma bits_shift: "0 < m \<Longrightarrow> bits (m * 2 ^ i) = bits m + i"
proof (rule bits_eqI)
  assume m: "0 < m"
  note b = bits_bounds [OF m]
  show "0 < bits m + i" using bits_pos [OF m] by simp
  have "bits m + i - 1 = (bits m - 1) + i" using bits_pos [OF m] by simp
  then have "(2::nat) ^ (bits m + i - 1) = 2 ^ (bits m - 1) * 2 ^ i" by (simp add: power_add)
  then show "2 ^ (bits m + i - 1) \<le> m * 2 ^ i" using b by simp
  show "m * 2 ^ i < 2 ^ (bits m + i)" using b by (simp add: power_add)
qed

lemma rnd_small: "bits m \<le> 53 \<Longrightarrow> rnd m = m"
  by (simp add: rnd_def)

lemma quotient_bounds:
  assumes "53 < bits m"
  shows "2 ^ 52 \<le> m div 2 ^ (bits m - 53) \<and> m div 2 ^ (bits m - 53) < 2 ^ 53"
proof -
  let ?sh = "bits m - 53"
  have m: "0 < m" using assms by (cases "m = 0") simp_all
  note b = bits_bounds [OF m]
  have e1: "bits m - 1 = 52 + ?sh" and e2: "bits m = 53 + ?sh" using assms by simp_all
  have l: "(2::nat) ^ 52 * 2 ^ ?sh \<le> m" using b e1 by (metis power_add)
  have u: "m < 2 ^ 53 * 2 ^ ?sh" using b e2 by (metis power_add)
  have "2 ^ 52 \<le> m div 2 ^ ?sh"
    using l by (simp add: less_eq_div_iff_mult_less_eq)
  moreover have "m div 2 ^ ?sh < 2 ^ 53"
    using u by (simp add: less_mult_imp_div_less)
  ultimately show ?thesis by blast
qed

lemma rnd_form:
  assumes "53 < bits m"
  shows "\<exists>q. rnd m = q * 2 ^ (bits m - 53) \<and> m div 2 ^ (bits m - 53) \<le> q \<and>
             q \<le> m div 2 ^ (bits m - 53) + 1"
  using assms by (auto simp: rnd_def Let_def)

lemma rnd_mult:
  assumes "2 ^ 52 \<le> q" and "q < 2 ^ 53"
  shows "rnd (q * 2 ^ k) = q * 2 ^ k"
proof -
  have q: "0 < q" using assms(1) by (cases "q = 0") simp_all
  have bq: "bits q = 53" using assms by (intro bits_eqI) simp_all
  have b: "bits (q * 2 ^ k) = 53 + k" using bits_shift [OF q, of k] bq by simp
  show ?thesis
  proof (cases k)
    case 0
    then show ?thesis using b by (simp add: rnd_def)
  next
    case (Suc j)
    have "(0::nat) < 2 ^ j" by simp
    then show ?thesis using b Suc by (simp add: rnd_def Let_def)
  qed
qed

lemma rnd_idem: "rnd (rnd m) = rnd m"
proof (cases "bits m \<le> 53")
  case True
  then show ?thesis by (simp add: rnd_small)
next
  case False
  then have g: "53 < bits m" by simp
  let ?sh = "bits m - 53"
  obtain q where q: "rnd m = q * 2 ^ ?sh" "m div 2 ^ ?sh \<le> q" "q \<le> m div 2 ^ ?sh + 1"
    using rnd_form [OF g] by blast
  have r: "2 ^ 52 \<le> q" "q \<le> 2 ^ 53" using quotient_bounds [OF g] q(2,3) by linarith+
  show ?thesis
  proof (cases "q < 2 ^ 53")
    case True
    then show ?thesis using rnd_mult [OF r(1) True, of ?sh] q(1) by simp
  next
    case False
    then have "q = 2 ^ 53" using r(2) by simp
    then have "rnd m = 2 ^ 52 * 2 ^ Suc ?sh" using q(1) by simp
    moreover have "rnd (2 ^ 52 * 2 ^ Suc ?sh) = 2 ^ 52 * 2 ^ Suc ?sh"
      by (rule rnd_mult) simp_all
    ultimately show ?thesis by simp
  qed
qed

lemma rnd_lower:
  assumes "s \<le> m" and "rnd s = s"
  shows "s \<le> rnd m"
proof (cases "bits m \<le> 53")
  case True
  then show ?thesis using assms(1) by (simp add: rnd_small)
next
  case False
  then have g: "53 < bits m" by simp
  let ?sh = "bits m - 53"
  obtain q where q: "rnd m = q * 2 ^ ?sh" "m div 2 ^ ?sh \<le> q"
    using rnd_form [OF g] by blast
  have low: "m div 2 ^ ?sh * 2 ^ ?sh \<le> rnd m" using q by simp
  have m: "0 < m" using g by (cases "m = 0") simp_all
  show ?thesis
  proof (cases "bits s = bits m")
    case True
    then have "53 < bits s" using g by simp
    from rnd_form [OF this] obtain p where "rnd s = p * 2 ^ ?sh" using True by auto
    then have d: "s = p * 2 ^ ?sh" using assms(2) by simp
    have "p = s div 2 ^ ?sh" using d by simp
    also have "\<dots> \<le> m div 2 ^ ?sh" using assms(1) by (rule div_le_mono)
    finally have "p * 2 ^ ?sh \<le> m div 2 ^ ?sh * 2 ^ ?sh" by simp
    then show ?thesis using d low by linarith
  next
    case False
    then have lt: "bits s < bits m" using bits_mono [OF assms(1)] by simp
    show ?thesis
    proof (cases "s = 0")
      case True
      then show ?thesis by simp
    next
      case f: False
      then have "s < 2 ^ bits s" using bits_bounds [of s] by simp
      also have "(2::nat) ^ bits s \<le> 2 ^ (bits m - 1)"
        using lt by (intro power_increasing) simp_all
      also have "bits m - 1 = 52 + ?sh" using g by simp
      also have "(2::nat) ^ (52 + ?sh) = 2 ^ 52 * 2 ^ ?sh" by (simp only: power_add)
      also have "\<dots> \<le> m div 2 ^ ?sh * 2 ^ ?sh"
        using quotient_bounds [OF g] by simp
      finally show ?thesis using low by linarith
    qed
  qed
qed

lemma rnd_error: "real m \<le> real (rnd m) + real m / 2 ^ 53"
proof (cases "bits m \<le> 53")
  case True
  then show ?thesis by (simp add: rnd_small)
next
  case False
  then have g: "53 < bits m" by simp
  let ?sh = "bits m - 53"
  obtain j where j: "?sh = Suc j" using g by (cases ?sh) simp_all
  let ?q = "m div 2 ^ ?sh" and ?r = "m mod 2 ^ ?sh"
  have m: "m = ?q * 2 ^ ?sh + ?r" by (rule div_mult_mod_eq [symmetric])
  show ?thesis
  proof (cases "?r < 2 ^ j \<or> (?r = 2 ^ j \<and> even ?q)")
    case True
    then have r: "rnd m = ?q * 2 ^ ?sh" using g j by (simp add: rnd_def Let_def)
    have rj: "?r \<le> 2 ^ j" using True by auto
    have "(2::nat) ^ 52 * 2 ^ ?sh \<le> ?q * 2 ^ ?sh" using quotient_bounds [OF g] by simp
    also have "\<dots> \<le> m" using m by linarith
    finally have "(2::nat) ^ 53 * 2 ^ j \<le> m" using j by simp
    then have "real ((2::nat) ^ 53 * 2 ^ j) \<le> real m" by (rule of_nat_mono)
    then have "(2::real) ^ j \<le> real m / 2 ^ 53" by (simp add: field_simps)
    moreover have "real ?r \<le> 2 ^ j"
    proof -
      have "real ?r \<le> real ((2::nat) ^ j)" using rj by (rule of_nat_mono)
      then show ?thesis by simp
    qed
    moreover have "real m = real (rnd m) + real ?r"
    proof -
      have "m = rnd m + ?r" using m r by simp
      then have "real m = real (rnd m + ?r)" by simp
      then show ?thesis by simp
    qed
    ultimately show ?thesis by linarith
  next
    case False
    then have r: "rnd m = (?q + 1) * 2 ^ ?sh" using g j by (simp add: rnd_def Let_def)
    have "?r < 2 ^ ?sh" by simp
    then have "?q * 2 ^ ?sh + ?r \<le> ?q * 2 ^ ?sh + 2 ^ ?sh" by simp
    also have "\<dots> = (?q + 1) * 2 ^ ?sh" by (simp add: algebra_simps)
    finally have "m \<le> rnd m" unfolding r using m by simp
    then have "real m \<le> real (rnd m)" by simp
    moreover have "0 \<le> real m / 2 ^ 53" by simp
    ultimately show ?thesis by linarith
  qed
qed

lemma rnd_scale: "rnd (m * 2 ^ i) = rnd m * 2 ^ i"
proof (cases "m = 0")
  case True
  then show ?thesis by (simp add: rnd_def)
next
  case False
  then have m: "0 < m" by simp
  have b: "bits (m * 2 ^ i) = bits m + i" using m by (rule bits_shift)
  show ?thesis
  proof (cases "bits m \<le> 53")
    case True
    show ?thesis
    proof (cases "bits m + i \<le> 53")
      case t: True
      then show ?thesis using True b by (simp add: rnd_small)
    next
      case f: False
      let ?d = "53 - bits m"
      have i: "i = ?d + (bits m + i - 53)" using True f by simp
      have p: "0 < bits m" using m by (rule bits_pos)
      have q1: "2 ^ 52 \<le> m * 2 ^ ?d"
      proof -
        have "(2::nat) ^ 52 = 2 ^ (bits m - 1) * 2 ^ ?d"
          using True p by (simp add: power_add [symmetric])
        also have "\<dots> \<le> m * 2 ^ ?d" using bits_bounds [OF m] by simp
        finally show ?thesis .
      qed
      have q2: "m * 2 ^ ?d < 2 ^ 53"
      proof -
        have "m * 2 ^ ?d < 2 ^ bits m * 2 ^ ?d" using bits_bounds [OF m] by simp
        also have "\<dots> = 2 ^ 53" using True by (simp add: power_add [symmetric])
        finally show ?thesis .
      qed
      define n where "n = m * 2 ^ ?d"
      define k where "k = bits m + i - 53"
      have e: "m * 2 ^ i = n * 2 ^ k"
        unfolding n_def k_def by (subst i) (simp add: power_add)
      have "rnd (n * 2 ^ k) = n * 2 ^ k"
        using q1 q2 unfolding n_def by (rule rnd_mult)
      then have "rnd (m * 2 ^ i) = m * 2 ^ i" by (simp only: e)
      then show ?thesis using True by (simp add: rnd_small)
    qed
  next
    case False
    then have g: "53 < bits m" by simp
    let ?sh = "bits m - 53"
    obtain j where j: "?sh = Suc j" using g by (cases ?sh) simp_all
    have sh: "bits (m * 2 ^ i) - 53 = ?sh + i" using b g by simp
    have d: "m * 2 ^ i div 2 ^ (?sh + i) = m div 2 ^ ?sh"
      by (simp add: power_add)
    have r: "m * 2 ^ i mod 2 ^ (?sh + i) = (m mod 2 ^ ?sh) * 2 ^ i"
      by (simp add: power_add mult_mod_left mult.commute)
    have h: "(2::nat) ^ (?sh + i - 1) = 2 ^ j * 2 ^ i" using j by (simp add: power_add)
    have g2: "\<not> bits (m * 2 ^ i) \<le> 53" using b g by simp
    have "rnd (m * 2 ^ i) =
            (if (m mod 2 ^ ?sh) * 2 ^ i < 2 ^ j * 2 ^ i \<or>
                ((m mod 2 ^ ?sh) * 2 ^ i = 2 ^ j * 2 ^ i \<and> even (m div 2 ^ ?sh))
             then m div 2 ^ ?sh else m div 2 ^ ?sh + 1) * 2 ^ (?sh + i)"
      unfolding rnd_def Let_def using g2 by (simp only: sh d r h if_False)
    also have "\<dots> = (if m mod 2 ^ ?sh < 2 ^ j \<or> (m mod 2 ^ ?sh = 2 ^ j \<and> even (m div 2 ^ ?sh))
             then m div 2 ^ ?sh else m div 2 ^ ?sh + 1) * 2 ^ ?sh * 2 ^ i"
      by (simp add: power_add)
    also have "\<dots> = rnd m * 2 ^ i"
      using g j by (simp add: rnd_def Let_def)
    finally show ?thesis .
  qed
qed

lemma bits_le: "m < 2 ^ n \<Longrightarrow> bits m \<le> n"
proof (cases "m = 0")
  case True
  then show ?thesis by simp
next
  case False
  assume "m < 2 ^ n"
  moreover have "2 ^ (bits m - 1) \<le> m" using bits_bounds [of m] False by simp
  ultimately have "(2::nat) ^ (bits m - 1) < 2 ^ n" by linarith
  then have "bits m - 1 < n" by (simp add: power_strict_increasing_iff)
  then show ?thesis by simp
qed

lemma grid_pos: "0 < grid"
  unfolding grid_def by (rule zero_less_power) simp

lemma grid_split: "j \<le> 1074 \<Longrightarrow> grid = 2 ^ j * 2 ^ (1074 - j)"
proof -
  assume "j \<le> 1074"
  then have "(1074::nat) = j + (1074 - j)" by simp
  then have "(2::real) ^ 1074 = 2 ^ (j + (1074 - j))" by (rule arg_cong)
  then show ?thesis unfolding grid_def by (simp only: power_add)
qed

lemma ticks_grid: "ticks (real k / grid) = k"
  using grid_pos by (simp add: ticks_def)

lemma dround_grid: "dround (real k / grid) = real (rnd k) / grid"
  by (simp add: dround_def ticks_grid)

lemma dround_dyadic:
  assumes "j \<le> 1074"
  shows "dround (real m / 2 ^ j) = real (rnd m) / 2 ^ j"
proof -
  note p = grid_split [OF assms]
  have "real m / 2 ^ j = real (m * 2 ^ (1074 - j)) / grid"
    by (simp add: p)
  then have "dround (real m / 2 ^ j) = real (rnd (m * 2 ^ (1074 - j))) / grid"
    by (simp only: dround_grid)
  also have "\<dots> = real (rnd m * 2 ^ (1074 - j)) / grid" by (simp only: rnd_scale)
  also have "\<dots> = real (rnd m) / 2 ^ j" by (simp add: p)
  finally show ?thesis .
qed

lemma is_double_grid:
  assumes "is_double x"
  shows "\<exists>k. x = real k / grid \<and> rnd k = k"
proof -
  let ?k = "rnd (ticks x)"
  have x: "x = real ?k / grid" using assms by (simp add: is_double_def dround_def)
  have "rnd ?k = ?k" by (rule rnd_idem)
  with x show ?thesis by blast
qed

lemma is_double_dround: "is_double (dround x)"
proof -
  have "dround (dround x) = dround x"
    unfolding dround_def [of x] dround_grid by (simp only: rnd_idem)
  moreover have "0 \<le> dround x" using grid_pos by (simp add: dround_def)
  ultimately show ?thesis by (simp add: is_double_def)
qed

lemma is_double_dadd: "is_double (dadd x y)"
  by (simp add: dadd_def is_double_dround)

lemma is_double_dyadic:
  assumes "m < 2 ^ 53" and "j \<le> 1074"
  shows "is_double (real m / 2 ^ j)"
proof -
  have "rnd m = m" using assms(1) by (intro rnd_small bits_le)
  then have "dround (real m / 2 ^ j) = real m / 2 ^ j"
    using dround_dyadic [OF assms(2), of m] by simp
  then show ?thesis by (simp add: is_double_def)
qed

lemma is_double_nat: "k < 2 ^ 53 \<Longrightarrow> is_double (real k)"
  using is_double_dyadic [of k 0] by simp

lemma dadd_grid:
  "dadd (real a / grid) (real b / grid) = real (rnd (a + b)) / grid"
proof -
  have "real a / grid + real b / grid = real (a + b) / grid"
    by (simp add: add_divide_distrib)
  then show ?thesis by (simp only: dadd_def dround_grid)
qed

lemma dadd_lower:
  assumes "is_double x" and "is_double y"
  shows "x \<le> dadd x y"
proof -
  obtain a where a: "x = real a / grid" "rnd a = a" using is_double_grid [OF assms(1)] by blast
  obtain b where b: "y = real b / grid" using is_double_grid [OF assms(2)] by blast
  have "a \<le> rnd (a + b)" by (rule rnd_lower [OF _ a(2)]) simp
  then have "real a \<le> real (rnd (a + b))" by (rule of_nat_mono)
  then show ?thesis unfolding a(1) b dadd_grid using grid_pos by (simp add: divide_right_mono)
qed

lemma dadd_error:
  assumes "is_double x" and "is_double y"
  shows "x + y \<le> dadd x y + (x + y) / 2 ^ 53"
proof -
  obtain a where a: "x = real a / grid" using is_double_grid [OF assms(1)] by blast
  obtain b where b: "y = real b / grid" using is_double_grid [OF assms(2)] by blast
  have s: "real a / grid + real b / grid = real (a + b) / grid"
    by (simp add: add_divide_distrib)
  have "real (a + b) / grid \<le> (real (rnd (a + b)) + real (a + b) / 2 ^ 53) / grid"
    using rnd_error [of "a + b"] grid_pos by (intro divide_right_mono) simp_all
  also have "\<dots> = real (rnd (a + b)) / grid + real (a + b) / grid / 2 ^ 53"
    by (simp add: add_divide_distrib)
  finally show ?thesis unfolding a b dadd_grid s .
qed

lemma dadd_dyadic:
  assumes "j \<le> 1074"
  shows "dadd (real a / 2 ^ j) (real b / 2 ^ j) = real (rnd (a + b)) / 2 ^ j"
proof -
  have e: "real a / 2 ^ j + real b / 2 ^ j = real (a + b) / 2 ^ j"
    by (simp only: of_nat_add add_divide_distrib)
  show ?thesis unfolding dadd_def e using assms by (rule dround_dyadic)
qed

lemma dadd_nat: "dadd (real a) (real b) = real (rnd (a + b))"
  using dadd_dyadic [of 0 a b] by simp

section \<open>The playback timeline\<close>

lemma is_double_max: "is_double x \<Longrightarrow> is_double y \<Longrightarrow> is_double (max x y)"
  by (simp add: max_def)

lemma schedule_all_sources:
  "map window (sourcesRef (schedule_all clips st)) =
     map window (sourcesRef st) @ timeline (nextStartTimeRef st) clips"
  by (induction clips arbitrary: st) (auto simp: schedule_def Let_def window_def)

lemma timeline_doubles:
  "double_clips clips \<Longrightarrow> is_double n \<Longrightarrow> w \<in> set (timeline n clips)
     \<Longrightarrow> is_double (fst w) \<and> is_double (snd w)"
proof (induction clips arbitrary: n)
  case Nil
  then show ?case by simp
next
  case (Cons c clips)
  obtain now d where c: "c = (now, d)" by (cases c)
  have dc: "is_double now" "is_double d" "double_clips clips"
    using Cons.prems(1) c by (simp_all add: double_clips_def)
  have m: "is_double (max n now)" using Cons.prems(2) dc(1) by (rule is_double_max)
  show ?case
  proof (cases "w = (max n now, d)")
    case True
    then show ?thesis using m dc(2) by simp
  next
    case False
    then have "w \<in> set (timeline (dadd (max n now) d) clips)" using Cons.prems(3) c by simp
    then show ?thesis using Cons.IH [OF dc(3) is_double_dadd] by blast
  qed
qed

lemma timeline_lower:
  "double_clips clips \<Longrightarrow> is_double n \<Longrightarrow> w \<in> set (timeline n clips) \<Longrightarrow> n \<le> fst w"
proof (induction clips arbitrary: n)
  case Nil
  then show ?case by simp
next
  case (Cons c clips)
  obtain now d where c: "c = (now, d)" by (cases c)
  have dc: "is_double now" "is_double d" "double_clips clips"
    using Cons.prems(1) c by (simp_all add: double_clips_def)
  have m: "is_double (max n now)" using Cons.prems(2) dc(1) by (rule is_double_max)
  show ?case
  proof (cases "w = (max n now, d)")
    case True
    then show ?thesis by simp
  next
    case False
    then have "w \<in> set (timeline (dadd (max n now) d) clips)" using Cons.prems(3) c by simp
    then have "dadd (max n now) d \<le> fst w" using Cons.IH [OF dc(3) is_double_dadd] by blast
    moreover have "max n now \<le> dadd (max n now) d" using m dc(2) by (rule dadd_lower)
    ultimately show ?thesis by simp
  qed
qed

lemma timeline_sorted:
  "double_clips clips \<Longrightarrow> is_double n \<Longrightarrow> sorted_wrt before (timeline n clips)"
proof (induction clips arbitrary: n)
  case Nil
  then show ?case by simp
next
  case (Cons c clips)
  obtain now d where c: "c = (now, d)" by (cases c)
  have dc: "double_clips clips" using Cons.prems(1) by (simp add: double_clips_def)
  have "\<forall>w \<in> set (timeline (dadd (max n now) d) clips). before (max n now, d) w"
    using timeline_lower [OF dc is_double_dadd] by (auto simp: before_def)
  then show ?case using Cons.IH [OF dc is_double_dadd] c by simp
qed

lemma u57_nonneg: "0 \<le> u57 k"
  by (simp add: u57_def)

lemma u57_dadd: "dadd (u57 a) (u57 b) = u57 (rnd (a + b))"
  unfolding u57_def by (rule dadd_dyadic) simp

lemma d04_double: "is_double d04"
  unfolding d04_def u57_def by (rule is_double_dyadic) simp_all

lemma rnd_d1: "rnd 5764607523034235 = 5764607523034235"
  by (rule rnd_small, rule bits_le) simp

lemma rnd_d2: "rnd 11529215046068470 = 11529215046068470"
proof -
  have "rnd (5764607523034235 * 2 ^ 1) = rnd 5764607523034235 * 2 ^ 1" by (rule rnd_scale)
  then show ?thesis by (simp add: rnd_d1)
qed

lemma rnd_d3: "rnd 17293822569102705 = 17293822569102704"
proof -
  have "bits 17293822569102705 = 54" by (rule bits_eqI) simp_all
  then show ?thesis by (simp add: rnd_def)
qed

lemma four_clips_cursor:
  "dadd 0 d04 = d04"
  "dadd d04 d04 = u57 11529215046068470"
  "dadd (u57 11529215046068470) d04 = u57 17293822569102704"
proof -
  have z: "(0::real) = u57 0" by (simp add: u57_def)
  show "dadd 0 d04 = d04"
    unfolding z d04_def u57_dadd by (simp add: rnd_d1)
  show "dadd d04 d04 = u57 11529215046068470"
    unfolding d04_def u57_dadd by (simp add: rnd_d2)
  show "dadd (u57 11529215046068470) d04 = u57 17293822569102704"
    unfolding d04_def u57_dadd by (simp add: rnd_d3)
qed

lemma four_clips_windows:
  "map window (sourcesRef (schedule_all four_clips initial_voice)) =
     [(0, d04), (d04, d04), (u57 11529215046068470, d04), (u57 17293822569102704, d04)]"
proof -
  have m: "max d04 0 = d04" "max (u57 11529215046068470) 0 = u57 11529215046068470"
    "max (u57 17293822569102704) 0 = u57 17293822569102704"
    by (simp_all add: d04_def max_absorb1 u57_nonneg)
  have "timeline 0 four_clips =
     [(0, d04), (d04, d04), (u57 11529215046068470, d04), (u57 17293822569102704, d04)]"
    by (simp add: four_clips_def four_clips_cursor m)
  then show ?thesis
    using schedule_all_sources [of four_clips initial_voice] by (simp add: initial_voice_def)
qed

text \<open>
  C3 as stated fails: the cursor is advanced by an addition of doubles, which rounds.
  Four clips of the double nearest to 0.04 s arrive at time 0; the cursor that the third
  leaves is one unit of \<open>2 powr -57\<close> s below the exact end of its window, and the fourth
  clip starts there, inside the window of the third.
\<close>

theorem fourth_clip_starts_early:
  "is_double d04 \<and>
   window (sourcesRef (schedule_all four_clips initial_voice) ! 2) =
     (u57 11529215046068470, u57 5764607523034235) \<and>
   window (sourcesRef (schedule_all four_clips initial_voice) ! 3) =
     (u57 17293822569102704, u57 5764607523034235) \<and>
   startAt (sourcesRef (schedule_all four_clips initial_voice) ! 3) <
     startAt (sourcesRef (schedule_all four_clips initial_voice) ! 2) +
     duration (sourcesRef (schedule_all four_clips initial_voice) ! 2)"
proof -
  let ?srcs = "sourcesRef (schedule_all four_clips initial_voice)"
  note w = four_clips_windows
  have "length (map window ?srcs) = 4" by (simp only: w) simp
  then have l: "length ?srcs = 4" by simp
  have "map window ?srcs ! 2 = (u57 11529215046068470, d04)" by (simp only: w) simp
  then have w2: "window (?srcs ! 2) = (u57 11529215046068470, d04)" using l by simp
  have "map window ?srcs ! 3 = (u57 17293822569102704, d04)" by (simp only: w) simp
  then have w3: "window (?srcs ! 3) = (u57 17293822569102704, d04)" using l by simp
  have s: "startAt (?srcs ! 2) = u57 11529215046068470" "duration (?srcs ! 2) = d04"
    "startAt (?srcs ! 3) = u57 17293822569102704"
    using w2 w3 by (simp_all add: window_def)
  have "u57 17293822569102704 < u57 11529215046068470 + d04"
    by (simp add: d04_def u57_def)
  then show ?thesis using d04_double w2 w3 s by (simp add: d04_def)
qed

text \<open>
  C3, amended: for every sequence of clips whose times and durations are doubles,
  scheduled on an empty source set, each clip starts at \<open>max nextStartTime now\<close> and the
  cursor becomes the double nearest to the start plus the duration.  Every clip starts no
  earlier than the cursor that any clip scheduled before it left, and that cursor falls
  short of the exact end of the earlier window by at most the rounding of one addition
  (the exact end divided by \<open>2 ^ 53\<close>): two windows \<open>[start, start + duration)\<close> overlap by
  no more than that.
\<close>

theorem schedule_no_overlap:
  assumes "double_clips clips" and "is_double (nextStartTimeRef st)" and "sourcesRef st = []"
  shows "map window (sourcesRef (schedule_all clips st)) = timeline (nextStartTimeRef st) clips \<and>
         (\<forall>i j. i < j \<and> j < length (sourcesRef (schedule_all clips st)) \<longrightarrow>
            dadd (startAt (sourcesRef (schedule_all clips st) ! i))
                 (duration (sourcesRef (schedule_all clips st) ! i))
              \<le> startAt (sourcesRef (schedule_all clips st) ! j) \<and>
            startAt (sourcesRef (schedule_all clips st) ! i) +
              duration (sourcesRef (schedule_all clips st) ! i)
              \<le> startAt (sourcesRef (schedule_all clips st) ! j) +
                 (startAt (sourcesRef (schedule_all clips st) ! i) +
                  duration (sourcesRef (schedule_all clips st) ! i)) / 2 ^ 53)"
proof -
  let ?srcs = "sourcesRef (schedule_all clips st)"
  have m: "map window ?srcs = timeline (nextStartTimeRef st) clips"
    using schedule_all_sources [of clips st] assms(3) by simp
  have s: "sorted_wrt before (map window ?srcs)"
    using timeline_sorted [OF assms(1,2)] m by simp
  have "dadd (startAt (?srcs ! i)) (duration (?srcs ! i)) \<le> startAt (?srcs ! j) \<and>
        startAt (?srcs ! i) + duration (?srcs ! i)
          \<le> startAt (?srcs ! j) + (startAt (?srcs ! i) + duration (?srcs ! i)) / 2 ^ 53"
    if "i < j" "j < length ?srcs" for i j
  proof -
    have "before (map window ?srcs ! i) (map window ?srcs ! j)"
      using s that by (simp add: sorted_wrt_iff_nth_less del: sorted_wrt_map)
    then have b: "dadd (startAt (?srcs ! i)) (duration (?srcs ! i)) \<le> startAt (?srcs ! j)"
      using that by (simp add: before_def window_def)
    have "map window ?srcs ! i \<in> set (timeline (nextStartTimeRef st) clips)"
      using that m by (metis length_map less_trans nth_mem)
    then have "is_double (fst (map window ?srcs ! i)) \<and> is_double (snd (map window ?srcs ! i))"
      by (rule timeline_doubles [OF assms(1,2)])
    then have "is_double (startAt (?srcs ! i))" "is_double (duration (?srcs ! i))"
      using that by (simp_all add: window_def)
    then have "startAt (?srcs ! i) + duration (?srcs ! i)
                 \<le> dadd (startAt (?srcs ! i)) (duration (?srcs ! i)) +
                    (startAt (?srcs ! i) + duration (?srcs ! i)) / 2 ^ 53"
      by (rule dadd_error)
    with b show ?thesis by linarith
  qed
  with m show ?thesis by blast
qed

lemma small_doubles: "is_double 1" "is_double 2" "is_double 10" "is_double 0"
  using is_double_nat [of 1] is_double_nat [of 2] is_double_nat [of 10] is_double_nat [of 0]
  by simp_all

lemma dadd_small: "a + b < 2 ^ 53 \<Longrightarrow> dadd (real a) (real b) = real (a + b)"
  by (simp add: dadd_nat rnd_small bits_le)

lemma small_sums: "dadd 0 1 = 1" "dadd 1 2 = 3" "dadd 3 1 = 4" "dadd 10 1 = 11"
  using dadd_small [of 0 1] dadd_small [of 1 2] dadd_small [of 3 1] dadd_small [of 10 1]
  by simp_all

theorem schedule_no_overlap_witness:
  "double_clips three_clips \<and>
   map window (sourcesRef (schedule_all three_clips initial_voice)) =
     [(1, 2), (3, 1), (10, 1)] \<and>
   dadd (startAt (sourcesRef (schedule_all three_clips initial_voice) ! 0))
        (duration (sourcesRef (schedule_all three_clips initial_voice) ! 0))
   \<le> startAt (sourcesRef (schedule_all three_clips initial_voice) ! 1)"
proof -
  let ?srcs = "sourcesRef (schedule_all three_clips initial_voice)"
  have h1: "double_clips three_clips"
    by (simp add: double_clips_def three_clips_def small_doubles)
  have h2: "is_double (nextStartTimeRef initial_voice)"
    by (simp add: initial_voice_def small_doubles)
  have h3: "sourcesRef initial_voice = []" by (simp add: initial_voice_def)
  note t = schedule_no_overlap [OF h1 h2 h3]
  have "map window ?srcs = timeline (nextStartTimeRef initial_voice) three_clips"
    using t by blast
  then have m: "map window ?srcs = [(1, 2), (3, 1), (10, 1)]"
    by (simp add: initial_voice_def three_clips_def small_sums)
  have "length (map window ?srcs) = 3" by (simp only: m) simp
  then have l: "(0::nat) < 1 \<and> 1 < length ?srcs" by simp
  from t l have "dadd (startAt (?srcs ! 0)) (duration (?srcs ! 0)) \<le> startAt (?srcs ! 1)"
    by blast
  with h1 m show ?thesis by blast
qed

text \<open>
  The same order holds of the active set under interruptions and ended sources, in any
  order.
\<close>

lemma timeline_ok_schedule:
  assumes "timeline_ok st" and "is_double now" and "is_double d"
  shows "timeline_ok (schedule now d st)"
proof -
  let ?start = "max (nextStartTimeRef st) now"
  have c: "is_double (nextStartTimeRef st)" using assms(1) by (simp add: timeline_ok_def)
  have s: "is_double ?start" using c assms(2) by (rule is_double_max)
  have l: "?start \<le> dadd ?start d" using s assms(3) by (rule dadd_lower)
  have old: "\<forall>source \<in> set (sourcesRef st).
               dadd (startAt source) (duration source) \<le> nextStartTimeRef st"
    using assms(1) by (simp add: timeline_ok_def)
  have "sorted_wrt before (map window (sourcesRef st))"
    using assms(1) by (simp add: timeline_ok_def)
  moreover have "\<forall>source \<in> set (sourcesRef st). before (window source) (?start, d)"
    using old by (auto simp: before_def window_def)
  moreover have "\<forall>source \<in> set (sourcesRef st).
                   dadd (startAt source) (duration source) \<le> dadd ?start d"
    using old l by fastforce
  ultimately show ?thesis
    by (simp add: timeline_ok_def schedule_def Let_def sorted_wrt_append window_def
        is_double_dadd del: sorted_wrt_map)
qed

lemma timeline_ok_interrupt:
  "is_double (nextStartTimeRef st) \<Longrightarrow> is_double now \<Longrightarrow> timeline_ok (interrupt now st)"
  by (simp add: timeline_ok_def interrupt_def)

lemma timeline_ok_onended: "timeline_ok st \<Longrightarrow> timeline_ok (onended i st)"
  by (auto simp: timeline_ok_def onended_def sorted_wrt_map sorted_wrt_filter)

lemma timeline_ok_play:
  assumes "timeline_ok st" and "double_event e"
  shows "timeline_ok (play e st)"
proof (cases e)
  case (Schedule now d)
  then show ?thesis using assms by (simp add: timeline_ok_schedule)
next
  case (Interrupt now)
  have "is_double (nextStartTimeRef st)" using assms(1) by (simp add: timeline_ok_def)
  then show ?thesis using assms(2) Interrupt by (simp add: timeline_ok_interrupt)
next
  case (Ended i)
  then show ?thesis using assms(1) by (simp add: timeline_ok_onended)
qed

lemma timeline_ok_run:
  "timeline_ok st \<Longrightarrow> \<forall>e \<in> set evs. double_event e \<Longrightarrow> timeline_ok (fold play evs st)"
  by (induction evs arbitrary: st) (simp_all add: timeline_ok_play)

section \<open>The voice dispatcher\<close>

lemma dispatch_frame:
  "dispatch fc st = Some (r, st') \<Longrightarrow>
     nextStartTimeRef st' = nextStartTimeRef st \<and> sourcesRef st' = sourcesRef st \<and>
     outputAudioContextRef st' = outputAudioContextRef st \<and> freshSource st' = freshSource st \<and>
     sessionPromiseRef st' = sessionPromiseRef st"
  by (auto simp: dispatch_def Let_def split: if_splits option.splits)

lemma dispatch_no_args: "no_args fc \<Longrightarrow> dispatch fc st = None"
  by (auto simp: dispatch_def no_args_def recognised_def)

lemma dispatch_args:
  "\<not> no_args fc \<Longrightarrow>
     \<exists>st'. dispatch fc st = Some (response fc, st') \<and>
           effects st' = effects st @ side_effects fc"
  by (auto simp: dispatch_def no_args_def recognised_def response_def side_effects_def Let_def)

lemma dispatch_unknown:
  "\<not> recognised fc \<Longrightarrow>
     dispatch fc st =
       Some (\<lparr>fr_id = fc_id fc, fr_name = fc_name fc, fr_result = ''Unknown tool''\<rparr>, st)"
  by (simp add: dispatch_def recognised_def)

lemma dispatch_all_frame:
  "nextStartTimeRef (batch_state (dispatch_all fcs st)) = nextStartTimeRef st \<and>
   sourcesRef (batch_state (dispatch_all fcs st)) = sourcesRef st \<and>
   outputAudioContextRef (batch_state (dispatch_all fcs st)) = outputAudioContextRef st \<and>
   freshSource (batch_state (dispatch_all fcs st)) = freshSource st \<and>
   sessionPromiseRef (batch_state (dispatch_all fcs st)) = sessionPromiseRef st"
proof (induction fcs arbitrary: st)
  case Nil
  then show ?case by simp
next
  case (Cons fc fcs)
  show ?case
  proof (cases "dispatch fc st")
    case None
    then show ?thesis by simp
  next
    case (Some p)
    obtain r st1 where p: "p = (r, st1)" by (cases p)
    have d: "dispatch fc st = Some (r, st1)" using Some p by simp
    have "batch_state (dispatch_all (fc # fcs) st) = batch_state (dispatch_all fcs st1)"
      by (cases "dispatch_all fcs st1") (auto simp: d)
    then show ?thesis using Cons.IH [of st1] dispatch_frame [OF d] by simp
  qed
qed

text \<open>
  The map over a batch in which every recognised call carries arguments: one response per
  call, in order, each under the id and name of its call, and the side effect of each call,
  in order.
\<close>

lemma dispatch_all_args:
  "\<forall>fc \<in> set fcs. \<not> no_args fc \<Longrightarrow>
     \<exists>st'. dispatch_all fcs st = Inr (map response fcs, st') \<and>
           effects st' = effects st @ concat (map side_effects fcs)"
proof (induction fcs arbitrary: st)
  case Nil
  then show ?case by simp
next
  case (Cons fc fcs)
  obtain st1 where d: "dispatch fc st = Some (response fc, st1)"
    and e1: "effects st1 = effects st @ side_effects fc"
    using dispatch_args [of fc st] Cons.prems by auto
  obtain st2 where a: "dispatch_all fcs st1 = Inr (map response fcs, st2)"
    and e2: "effects st2 = effects st1 @ concat (map side_effects fcs)"
    using Cons.IH [of st1] Cons.prems by auto
  show ?case using d a e1 e2 by simp
qed

text \<open>
  The map over any batch: it stops at the first recognised call without arguments, with
  the side effects of the calls before it.
\<close>

lemma dispatch_all_effects:
  "effects (batch_state (dispatch_all fcs st)) =
     effects st @ concat (map side_effects (takeWhile (\<lambda>fc. \<not> no_args fc) fcs))"
proof (induction fcs arbitrary: st)
  case Nil
  then show ?case by simp
next
  case (Cons fc fcs)
  show ?case
  proof (cases "no_args fc")
    case True
    then show ?thesis by (simp add: dispatch_no_args)
  next
    case False
    obtain st1 where d: "dispatch fc st = Some (response fc, st1)"
      and e1: "effects st1 = effects st @ side_effects fc"
      using dispatch_args [OF False, of st] by auto
    have "batch_state (dispatch_all (fc # fcs) st) = batch_state (dispatch_all fcs st1)"
      by (cases "dispatch_all fcs st1") (auto simp: d)
    then show ?thesis using Cons.IH [of st1] e1 False by simp
  qed
qed



lemma handle_tool_calls_args:
  assumes "\<forall>fc \<in> set fcs. \<not> no_args fc"
  shows "\<exists>st'. handle_tool_calls fcs st = Inr st' \<and>
           effects st' = effects st @ concat (map side_effects fcs) @
             (if sessionPromiseRef st then [SendToolResponse (map response fcs)] else [])"
proof -
  obtain st1 where a: "dispatch_all fcs st = Inr (map response fcs, st1)"
    and e: "effects st1 = effects st @ concat (map side_effects fcs)"
    using dispatch_all_args [OF assms, of st] by auto
  have "sessionPromiseRef st1 = sessionPromiseRef st"
    using dispatch_all_frame [of fcs st] a by simp
  then show ?thesis using e by (simp add: handle_tool_calls_def a)
qed

lemma handle_tool_calls_side_effects:
  "filter is_side_effect (effects (branch_state (handle_tool_calls fcs st))) =
     filter is_side_effect (effects st) @
     concat (map side_effects (takeWhile (\<lambda>fc. \<not> no_args fc) fcs))"
proof -
  have f: "filter is_side_effect (concat (map side_effects cs)) = concat (map side_effects cs)"
    for cs
    by (induction cs) (simp_all add: side_effects_def)
  have "filter is_side_effect (effects (branch_state (handle_tool_calls fcs st))) =
          filter is_side_effect (effects (batch_state (dispatch_all fcs st)))"
  proof (cases "dispatch_all fcs st")
    case (Inl st1)
    then show ?thesis by (simp add: handle_tool_calls_def)
  next
    case (Inr p)
    obtain rs st1 where p: "p = (rs, st1)" by (cases p)
    show ?thesis using Inr p by (simp add: handle_tool_calls_def)
  qed
  then show ?thesis by (simp add: dispatch_all_effects f)
qed

section \<open>Interruption\<close>


lemma live_voice_fields:
  "status live_voice = Connected" "isConnected live_voice" "\<not> isMuted live_voice"
  "streamRef live_voice" "sourceRef live_voice" "processorRef live_voice = Some False"
  "inputAudioContextRef live_voice" "outputAudioContextRef live_voice"
  "animationFrameRef live_voice = Some 1" "sessionRef live_voice" "sessionPromiseRef live_voice"
  "sourcesRef live_voice = []" "nextStartTimeRef live_voice = 0" "freshSource live_voice = 0"
  "effects live_voice =
     [SendRealtimeInputText ''System: User connected. Introduce yourself warmly as Tumelo and ask for their name.'',
      RequestAnimationFrame 1]"
  by (simp_all add: live_voice_def visualizer_effect_def draw_def onopen_def
      startInputStream_def startSession_def open_panel_def initial_voice_def Let_def)

lemma playing_voice_fields:
  "sourcesRef playing_voice =
     [\<lparr>src_id = 0, startAt = 0, duration = 1\<rparr>, \<lparr>src_id = 1, startAt = 1, duration = 2\<rparr>]"
  "nextStartTimeRef playing_voice = 3" "freshSource playing_voice = 2"
  "outputAudioContextRef playing_voice" "sessionPromiseRef playing_voice"
  "effects playing_voice = effects live_voice @ [SourceStart 0 0 1, SourceStart 1 1 2]"
  by (simp_all add: playing_voice_def schedule_def live_voice_fields small_sums Let_def)




text \<open>
  C10: when a message has \<open>serverContent.interrupted\<close> set, the handler returns before the
  tool-call branch: the calls of the message are not dispatched (no booking form, no contact
  link), no tool response is sent, and the result is the same as without the calls.
\<close>

theorem interrupted_skips_tool_calls:
  assumes "interrupted m"
  shows "filter is_tool_effect (effects (onmessage now m st)) =
           filter is_tool_effect (effects st) \<and>
         whatsappUrl (onmessage now m st) = whatsappUrl st \<and>
         onmessage now m st = onmessage now (m\<lparr>toolCall := None\<rparr>) st"
proof -
  have "filter is_tool_effect (map (\<lambda>source. SourceStop (src_id source)) xs) = []" for xs
    by (induction xs) simp_all
  then show ?thesis using assms by (simp add: onmessage_def interrupt_def)
qed

theorem interrupted_skips_tool_calls_witness:
  "interrupted interrupted_message \<and>
   toolCall interrupted_message = Some [booking_call] \<and>
   filter is_tool_effect (effects (onmessage 5 interrupted_message playing_voice)) =
     filter is_tool_effect (effects playing_voice) \<and>
   filter is_tool_effect
     (effects (onmessage 5 (interrupted_message\<lparr>interrupted := False\<rparr>) playing_voice)) \<noteq>
     filter is_tool_effect (effects playing_voice)"
proof -
  have h: "interrupted interrupted_message" by (simp add: interrupted_message_def)
  note e = playing_voice_fields
  have "filter is_tool_effect
     (effects (onmessage 5 (interrupted_message\<lparr>interrupted := False\<rparr>) playing_voice)) =
     filter is_tool_effect (effects playing_voice) @
       [OpenBookingForm (bookingData (the (fc_args booking_call))),
        SendToolResponse [\<lparr>fr_id = Some ''call-1'', fr_name = ''open_booking_form'',
           fr_result = ''Booking Form Opened/Updated on User Screen.''\<rparr>]]"
    using e(4,5)
    by (simp add: onmessage_def interrupted_message_def handle_tool_calls_def dispatch_def
        booking_call_def schedule_def Let_def)
  then have b: "filter is_tool_effect
     (effects (onmessage 5 (interrupted_message\<lparr>interrupted := False\<rparr>) playing_voice)) \<noteq>
     filter is_tool_effect (effects playing_voice)"
    by simp
  have c: "toolCall interrupted_message = Some [booking_call]"
    by (simp add: interrupted_message_def)
  have a: "filter is_tool_effect (effects (onmessage 5 interrupted_message playing_voice)) =
     filter is_tool_effect (effects playing_voice)"
    using interrupted_skips_tool_calls [OF h, of 5 playing_voice] by blast
  show ?thesis using h a b c by blast
qed

section \<open>Teardown and mute\<close>

text \<open>
  \<open>onclose\<close> is \<open>handleDisconnect\<close>: it stops the tracks of the capture stream, disconnects
  the nodes, closes both contexts and cancels the recorded animation frame (each when its
  ref is set), nulls the session handles and sets the status to \<open>disconnected\<close>.  \<open>onerror\<close>
  only sets the status to \<open>error\<close>.
\<close>

lemma onclose_tears_down:
  "onclose st = handleDisconnect st \<and>
   status (onclose st) = Disconnected \<and> \<not> isConnected (onclose st) \<and>
   \<not> sessionRef (onclose st) \<and> \<not> sessionPromiseRef (onclose st) \<and>
   effects (onclose st) = effects st @ teardown st \<and>
   onerror st = st\<lparr>status := Error\<rparr>"
  by (simp add: onclose_def handleDisconnect_def onerror_def teardown_def)

text \<open>
  C9 fails on the code for \<open>onerror\<close>: on a live session it sets the status to \<open>error\<close>
  and does nothing else.  No track is stopped, no node disconnected, no context closed, the
  animation frame is not cancelled and the session handles stay, so the next capture buffer
  is still sent; the teardown that \<open>onclose\<close> runs on the same state does all of that.
\<close>

theorem onerror_keeps_resources:
  "status (onerror live_voice) = Error \<and>
   effects (onerror live_voice) = effects live_voice \<and>
   sessionRef (onerror live_voice) \<and> sessionPromiseRef (onerror live_voice) \<and>
   isConnected (onerror live_voice) \<and>
   effects (onaudioprocess [1/2, -1/4] (onerror live_voice)) =
     effects live_voice @ [SendRealtimeInputMedia [1/2, -1/4]] \<and>
   effects (onclose live_voice) =
     effects live_voice @ [StopTracks, DisconnectSource, DisconnectProcessor,
                           CloseInputContext, CloseOutputContext, CancelAnimationFrame 1] \<and>
   \<not> sessionRef (onclose live_voice) \<and> \<not> sessionPromiseRef (onclose live_voice)"
  by (simp add: onerror_def onclose_def handleDisconnect_def onaudioprocess_def
      live_voice_fields)

text \<open>
  C4 fails on the code: the capture handler reads the \<open>isMuted\<close> of the render that
  started the session.  On a session started unmuted, after \<open>toggleMute\<close> the flag is set
  and the next capture buffer is still sent.
\<close>

theorem muted_buffer_is_sent:
  "isMuted (toggleMute live_voice) \<and>
   effects (onaudioprocess [1/2, -1/4] (toggleMute live_voice)) =
     effects (toggleMute live_voice) @ [SendRealtimeInputMedia [1/2, -1/4]]"
  by (simp add: toggleMute_def onaudioprocess_def live_voice_fields)

text \<open>In any state, the mute flag has no influence on what the capture handler sends.\<close>

lemma onaudioprocess_ignores_isMuted:
  "effects (onaudioprocess inputData (st\<lparr>isMuted := b\<rparr>)) = effects (onaudioprocess inputData st)"
  by (simp add: onaudioprocess_def split: option.splits)

section \<open>The text engine's stream\<close>

lemma set_bot_text_placeholder:
  "placeholder botMsgId t st \<Longrightarrow>
     placeholder botMsgId t' (st\<lparr>messages := set_bot_text botMsgId t' (messages st)\<rparr>)"
  by (simp add: placeholder_def set_bot_text_def last_map)

lemma placeholder_effects:
  "placeholder botMsgId t st \<Longrightarrow> placeholder botMsgId t (st\<lparr>chat_effects := es\<rparr>)"
  by (simp add: placeholder_def)

lemma call_loop_skip:
  "fc_name call \<noteq> ''open_booking_form'' \<Longrightarrow>
     call_loop svc botMsgId (call # calls) frame = call_loop svc botMsgId calls frame"
  by (cases frame) simp


text \<open>
  One booking call with arguments, when its acknowledgment exchange returns: the form and
  the acknowledgment are added to the trace, the continuation text to the placeholder.
\<close>

lemma call_loop_step:
  assumes "fc_name call = ''open_booking_form''" and "fc_args call \<noteq> None"
    and "svc_ack svc k \<noteq> Throws" and "placeholder botMsgId full st"
  shows "\<exists>st2. call_loop svc botMsgId (call # calls) (st, full, k) =
                  call_loop svc botMsgId calls (st2, full @ ack_text svc k, Suc k) \<and>
           placeholder botMsgId (full @ ack_text svc k) st2 \<and>
           chat_effects st2 = chat_effects st @ text_effects call \<and>
           error st2 = error st \<and> isLoading st2 = isLoading st"
proof -
  obtain args where a: "fc_args call = Some args" using assms(2) by auto
  let ?st1 = "st\<lparr>chat_effects := chat_effects st @
                  [OpenBookingForm (bookingData args), SendMessage text_ack]\<rparr>"
  obtain r where r: "svc_ack svc k = Returns r"
    using assms(3) by (cases "svc_ack svc k") auto
  have p1: "placeholder botMsgId full ?st1" using assms(4) by (rule placeholder_effects)
  have e1: "chat_effects ?st1 = chat_effects st @ text_effects call"
    using assms(1) a by (simp add: text_effects_def)
  show ?thesis
  proof (cases "truthy r")
    case True
    then obtain t where rt: "r = Some t" by (cases r) (auto simp: truthy_def)
    let ?st2 = "?st1\<lparr>messages := set_bot_text botMsgId (full @ t) (messages ?st1)\<rparr>"
    have "placeholder botMsgId (full @ t) ?st2"
      using p1 by (rule set_bot_text_placeholder)
    moreover have "call_loop svc botMsgId (call # calls) (st, full, k) =
                  call_loop svc botMsgId calls (?st2, full @ t, Suc k)"
      using assms(1) a r rt True by (simp add: Let_def text_ack_def)
    moreover have "ack_text svc k = t" by (simp add: ack_text_def r rt)
    moreover have "chat_effects ?st2 = chat_effects st @ text_effects call" using e1 by simp
    ultimately show ?thesis by (intro exI [of _ ?st2]) simp
  next
    case False
    have "call_loop svc botMsgId (call # calls) (st, full, k) =
                  call_loop svc botMsgId calls (?st1, full, Suc k)"
      using assms(1) a r False by (simp add: Let_def text_ack_def)
    moreover have "ack_text svc k = ''''"
      using False by (cases r) (auto simp: ack_text_def r truthy_def)
    ultimately show ?thesis using p1 e1 by (intro exI [of _ ?st1]) simp
  qed
qed

lemma call_loop_returns:
  assumes "\<forall>k. svc_ack svc k \<noteq> Throws" and "\<forall>call \<in> set calls. \<not> text_no_args call"
    and "placeholder botMsgId full st"
  shows "\<exists>st'. call_loop svc botMsgId calls (st, full, k) =
           Inr (st', full @ ack_texts svc k (length (booking_calls calls)),
                k + length (booking_calls calls)) \<and>
         placeholder botMsgId (full @ ack_texts svc k (length (booking_calls calls))) st' \<and>
         chat_effects st' = chat_effects st @ concat (map text_effects calls) \<and>
         error st' = error st \<and> isLoading st' = isLoading st"
  using assms(2,3)
proof (induction calls arbitrary: st full k)
  case Nil
  then show ?case by (simp add: booking_calls_def)
next
  case (Cons call calls)
  let ?n = "length (booking_calls calls)"
  have rest: "\<forall>call \<in> set calls. \<not> text_no_args call" using Cons.prems(1) by simp
  show ?case
  proof (cases "fc_name call = ''open_booking_form''")
    case False
    then show ?thesis using Cons.IH [OF rest Cons.prems(2), of k]
      by (simp add: booking_calls_def text_effects_def)
  next
    case True
    have bc: "booking_calls (call # calls) = call # booking_calls calls"
      using True by (simp add: booking_calls_def)
    have a: "fc_args call \<noteq> None" using Cons.prems(1) True by (simp add: text_no_args_def)
    have k: "svc_ack svc k \<noteq> Throws" using assms(1) by simp
    obtain st2 where
      step: "call_loop svc botMsgId (call # calls) (st, full, k) =
               call_loop svc botMsgId calls (st2, full @ ack_text svc k, Suc k)"
      and p2: "placeholder botMsgId (full @ ack_text svc k) st2"
      and e2: "chat_effects st2 = chat_effects st @ text_effects call" "error st2 = error st"
              "isLoading st2 = isLoading st"
      using call_loop_step [OF True a k Cons.prems(2), of calls] by blast
    obtain st' where
      i: "call_loop svc botMsgId calls (st2, full @ ack_text svc k, Suc k) =
            Inr (st', (full @ ack_text svc k) @ ack_texts svc (Suc k) ?n, Suc k + ?n)"
         "placeholder botMsgId ((full @ ack_text svc k) @ ack_texts svc (Suc k) ?n) st'"
         "chat_effects st' = chat_effects st2 @ concat (map text_effects calls)"
         "error st' = error st2" "isLoading st' = isLoading st2"
      using Cons.IH [OF rest p2, of "Suc k"] by blast
    have "call_loop svc botMsgId (call # calls) (st, full, k) =
            Inr (st', full @ ack_texts svc k (length (booking_calls (call # calls))),
                 k + length (booking_calls (call # calls)))"
      unfolding step i(1) by (simp add: bc)
    moreover have "placeholder botMsgId
            (full @ ack_texts svc k (length (booking_calls (call # calls)))) st'"
      using i(2) by (simp add: bc)
    moreover have "chat_effects st' = chat_effects st @ concat (map text_effects (call # calls))"
      using i(3) e2(1) by simp
    moreover have "error st' = error st" "isLoading st' = isLoading st"
      using i(4,5) e2(2,3) by simp_all
    ultimately show ?thesis by blast
  qed
qed

lemma chunk_step_returns:
  assumes "\<forall>k. svc_ack svc k \<noteq> Throws" and "\<forall>call \<in> set (calls_of c). \<not> text_no_args call"
    and "placeholder botMsgId full st"
  shows "\<exists>st'. chunk_step svc botMsgId c (st, full, k) =
           Inr (st', full @ narrative svc k [c], k + length (booking_calls (calls_of c))) \<and>
         placeholder botMsgId (full @ narrative svc k [c]) st' \<and>
         error st' = error st \<and> isLoading st' = isLoading st"
proof -
  let ?n = "length (booking_calls (calls_of c))"
  let ?full1 = "full @ ack_texts svc k ?n"
  have "\<exists>st1. (case functionCalls c of
              None \<Rightarrow> Inr (st, full, k)
            | Some calls \<Rightarrow>
                if length calls > 0 then call_loop svc botMsgId calls (st, full, k)
                else Inr (st, full, k)) = Inr (st1, ?full1, k + ?n) \<and>
          placeholder botMsgId ?full1 st1 \<and> error st1 = error st \<and> isLoading st1 = isLoading st"
  proof (cases "functionCalls c")
    case None
    then show ?thesis using assms(3) by (simp add: calls_of_def booking_calls_def)
  next
    case (Some calls)
    show ?thesis
    proof (cases "calls = []")
      case True
      then show ?thesis using assms(3) Some by (simp add: calls_of_def booking_calls_def)
    next
      case False
      have "\<forall>call \<in> set calls. \<not> text_no_args call"
        using assms(2) Some by (simp add: calls_of_def)
      from call_loop_returns [OF assms(1) this assms(3), of k]
      show ?thesis using False Some by (auto simp: calls_of_def)
    qed
  qed
  then obtain st1 where
    s: "(case functionCalls c of
              None \<Rightarrow> Inr (st, full, k)
            | Some calls \<Rightarrow>
                if length calls > 0 then call_loop svc botMsgId calls (st, full, k)
                else Inr (st, full, k)) = Inr (st1, ?full1, k + ?n)"
    and p: "placeholder botMsgId ?full1 st1"
    and e: "error st1 = error st" "isLoading st1 = isLoading st"
    by blast
  let ?st2 = "st1\<lparr>messages := set_bot_text botMsgId (?full1 @ chunkText c) (messages st1)\<rparr>"
  have "chunk_step svc botMsgId c (st, full, k) = Inr (?st2, ?full1 @ chunkText c, k + ?n)"
    unfolding chunk_step_def s by (simp add: Let_def)
  moreover have "placeholder botMsgId (?full1 @ chunkText c) ?st2"
    using p by (rule set_bot_text_placeholder)
  ultimately show ?thesis using e by simp
qed

lemma stream_loop_returns:
  assumes "\<forall>k. svc_ack svc k \<noteq> Throws"
    and "\<forall>c \<in> set chunks. \<forall>call \<in> set (calls_of c). \<not> text_no_args call"
    and "placeholder botMsgId full st"
  shows "\<exists>st' k'. stream_loop svc botMsgId (map Returns chunks) (st, full, k) =
           Inr (st', full @ narrative svc k chunks, k') \<and>
         placeholder botMsgId (full @ narrative svc k chunks) st' \<and>
         error st' = error st \<and> isLoading st' = isLoading st"
  using assms(2,3)
proof (induction chunks arbitrary: st full k)
  case Nil
  then show ?case by simp
next
  case (Cons c chunks)
  let ?n = "length (booking_calls (calls_of c))"
  have c: "\<forall>call \<in> set (calls_of c). \<not> text_no_args call"
    and rest: "\<forall>c \<in> set chunks. \<forall>call \<in> set (calls_of c). \<not> text_no_args call"
    using Cons.prems(1) by simp_all
  obtain st1 where
    s: "chunk_step svc botMsgId c (st, full, k) = Inr (st1, full @ narrative svc k [c], k + ?n)"
    and p: "placeholder botMsgId (full @ narrative svc k [c]) st1"
    and e: "error st1 = error st" "isLoading st1 = isLoading st"
    using chunk_step_returns [OF assms(1) c Cons.prems(2), of k] by blast
  show ?case using Cons.IH [OF rest p, of "k + ?n"] e by (auto simp: s)
qed








section \<open>The tool dispatchers\<close>

lemma call_loop_step_effects:
  assumes "fc_name call = ''open_booking_form''" and "fc_args call \<noteq> None"
    and "svc_ack svc k \<noteq> Throws"
  shows "\<exists>st2 full2. call_loop svc botMsgId (call # calls) (st, full, k) =
                  call_loop svc botMsgId calls (st2, full2, Suc k) \<and>
           chat_effects st2 = chat_effects st @ text_effects call"
proof -
  obtain args where a: "fc_args call = Some args" using assms(2) by auto
  let ?st1 = "st\<lparr>chat_effects := chat_effects st @
                  [OpenBookingForm (bookingData args), SendMessage text_ack]\<rparr>"
  obtain r where r: "svc_ack svc k = Returns r"
    using assms(3) by (cases "svc_ack svc k") auto
  have e1: "chat_effects ?st1 = chat_effects st @ text_effects call"
    using assms(1) a by (simp add: text_effects_def)
  show ?thesis
  proof (cases "truthy r")
    case True
    let ?full2 = "full @ the r"
    let ?st2 = "?st1\<lparr>messages := set_bot_text botMsgId ?full2 (messages ?st1)\<rparr>"
    have "call_loop svc botMsgId (call # calls) (st, full, k) =
                  call_loop svc botMsgId calls (?st2, ?full2, Suc k)"
      using assms(1) a r True by (simp add: Let_def text_ack_def)
    moreover have "chat_effects ?st2 = chat_effects st @ text_effects call" using e1 by simp
    ultimately show ?thesis by blast
  next
    case False
    have "call_loop svc botMsgId (call # calls) (st, full, k) =
                  call_loop svc botMsgId calls (?st1, full, Suc k)"
      using assms(1) a r False by (simp add: Let_def text_ack_def)
    then show ?thesis using e1 by blast
  qed
qed

text \<open>
  The loop over any calls of a fragment, when no acknowledgment exchange throws: it stops
  at the first booking call without arguments, with what belongs to the calls before it.
\<close>

lemma call_loop_trace:
  assumes "\<forall>k. svc_ack svc k \<noteq> Throws"
  shows "chat_effects (state_of (call_loop svc botMsgId calls (st, full, k))) =
           chat_effects st @
           concat (map text_effects (takeWhile (\<lambda>call. \<not> text_no_args call) calls))"
proof (induction calls arbitrary: st full k)
  case Nil
  then show ?case by simp
next
  case (Cons call calls)
  show ?case
  proof (cases "fc_name call = ''open_booking_form''")
    case False
    then show ?thesis using Cons.IH [of st full k]
      by (simp add: text_effects_def text_no_args_def)
  next
    case True
    show ?thesis
    proof (cases "fc_args call = None")
      case n: True
      then show ?thesis using True by (simp add: text_no_args_def)
    next
      case False
      have k: "svc_ack svc k \<noteq> Throws" using assms by simp
      obtain st2 full2 where
        step: "call_loop svc botMsgId (call # calls) (st, full, k) =
                 call_loop svc botMsgId calls (st2, full2, Suc k)"
        and e2: "chat_effects st2 = chat_effects st @ text_effects call"
        using call_loop_step_effects [OF True False k, of botMsgId calls st full] by blast
      have t: "\<not> text_no_args call" using False by (simp add: text_no_args_def)
      show ?thesis unfolding step using Cons.IH [of st2 full2 "Suc k"] e2 t by simp
    qed
  qed
qed


lemma response_unknown:
  "\<not> recognised fc \<Longrightarrow>
     response fc = \<lparr>fr_id = fc_id fc, fr_name = fc_name fc, fr_result = ''Unknown tool''\<rparr> \<and>
     side_effects fc = []"
  by (simp add: response_def side_effects_def recognised_def)



lemma booking_call_fields:
  "fc_name booking_call = ''open_booking_form''" "fc_id booking_call = Some ''call-1''"
  "fc_args booking_call = Some [''name'' \<mapsto> ''Sam'', ''issue'' \<mapsto> ''cracked screen'']"
  "bookingData [''name'' \<mapsto> ''Sam'', ''issue'' \<mapsto> ''cracked screen''] =
     \<lparr>name = Some ''Sam'', phone = None, email = None, address = None,
      deviceType = None, serviceType = None, description = Some ''cracked screen''\<rparr>"
  "\<not> no_args booking_call" "\<not> text_no_args booking_call" "recognised booking_call"
  by (simp_all add: booking_call_def bookingData_def no_args_def text_no_args_def recognised_def)

lemma unknown_call_fields:
  "fc_name unknown_call = ''reboot_device''" "fc_id unknown_call = Some ''call-2''"
  "\<not> recognised unknown_call" "\<not> no_args unknown_call" "\<not> text_no_args unknown_call"
  "side_effects unknown_call = []" "text_effects unknown_call = []"
  "response unknown_call =
     \<lparr>fr_id = Some ''call-2'', fr_name = ''reboot_device'', fr_result = ''Unknown tool''\<rparr>"
  by (simp_all add: unknown_call_def no_args_def text_no_args_def recognised_def
      side_effects_def text_effects_def response_def)


text \<open>
  C8 fails on the code in the text engine: for a fragment whose call names an unknown
  tool, the stream is consumed to its end and nothing is sent back for the call, where the
  engine's own comment says that a tool call must be answered for the conversation to
  continue and the voice engine answers \<open>Unknown tool\<close>.
\<close>

theorem text_unknown_tool_unanswered:
  "fc_name unknown_call = ''reboot_device'' \<and>
   svc_stream svc_unknown =
     Returns [Returns \<lparr>g_parts = Some [Some unknown_call], g_text = Some ''Done.''\<rparr>] \<and>
   chat_effects (handleSendMessage svc_unknown ''100'' ''101'' ''hi'' ready_chat) =
     [SendMessageStream ''hi''] \<and>
   m_text (last (messages (handleSendMessage svc_unknown ''100'' ''101'' ''hi'' ready_chat))) =
     ''Done.'' \<and>
   error (handleSendMessage svc_unknown ''100'' ''101'' ''hi'' ready_chat) = None \<and>
   effects (branch_state (handle_tool_calls [unknown_call] live_voice)) =
     effects live_voice @
     [SendToolResponse [\<lparr>fr_id = Some ''call-2'', fr_name = ''reboot_device'',
                         fr_result = ''Unknown tool''\<rparr>]]"
  by (simp add: handleSendMessage_def svc_unknown_def unknown_call_def ready_chat_def
      initial_chat_def trim_def is_ws_def chunk_step_def functionCalls_def chunkText_def
      truthy_def set_bot_text_def Let_def handle_tool_calls_def dispatch_def
      live_voice_fields)

theorem text_unknown_tool_unanswered_witness:
  "filter is_tool_effect
     (chat_effects (handleSendMessage svc_unknown ''100'' ''101'' ''hi'' ready_chat)) = [] \<and>
   filter is_tool_effect (effects live_voice) = [] \<and>
   filter is_tool_effect (effects (branch_state (handle_tool_calls [unknown_call] live_voice))) =
     [SendToolResponse [\<lparr>fr_id = Some ''call-2'', fr_name = ''reboot_device'',
                         fr_result = ''Unknown tool''\<rparr>]]"
proof -
  note t = text_unknown_tool_unanswered
  have a: "chat_effects (handleSendMessage svc_unknown ''100'' ''101'' ''hi'' ready_chat) =
             [SendMessageStream ''hi'']"
    using t by blast
  have b: "effects (branch_state (handle_tool_calls [unknown_call] live_voice)) =
             effects live_voice @
             [SendToolResponse [\<lparr>fr_id = Some ''call-2'', fr_name = ''reboot_device'',
                                 fr_result = ''Unknown tool''\<rparr>]]"
    using t by blast
  show ?thesis unfolding a b by (simp add: live_voice_fields)
qed

text \<open>
  In the voice engine, every batch in which the recognised calls carry arguments is
  answered with one result per invocation, in order, each under the id and name of its
  invocation; an unrecognised invocation gets \<open>Unknown tool\<close> and has no side effect.
\<close>

lemma voice_batch_answered:
  assumes "\<forall>fc \<in> set fcs. \<not> no_args fc" and "sessionPromiseRef st"
  shows "effects (branch_state (handle_tool_calls fcs st)) =
           effects st @ concat (map side_effects fcs) @ [SendToolResponse (map response fcs)]"
  using handle_tool_calls_args [OF assms(1), of st] assms(2) by auto

text \<open>
  C5 as stated fails: no engine remembers the ids it has dispatched.  Two messages that
  carry the same invocation, with the same id, open the booking form twice.
\<close>

theorem replayed_id_triggers_again:
  "toolCall booking_message = Some [booking_call] \<and> fc_id booking_call = Some ''call-1'' \<and>
   filter is_side_effect (effects live_voice) = [] \<and>
   filter is_side_effect
     (effects (onmessage 1 booking_message (onmessage 0 booking_message live_voice))) =
     [OpenBookingForm \<lparr>name = Some ''Sam'', phone = None, email = None, address = None,
        deviceType = None, serviceType = None, description = Some ''cracked screen''\<rparr>,
      OpenBookingForm \<lparr>name = Some ''Sam'', phone = None, email = None, address = None,
        deviceType = None, serviceType = None, description = Some ''cracked screen''\<rparr>]"
  by (simp add: onmessage_def booking_message_def handle_tool_calls_def dispatch_def
      booking_call_def bookingData_def live_voice_fields Let_def)

text \<open>
  C5, amended: every dispatch of a tool invocation that carries its arguments triggers the
  side effect of its tool (the booking form with the draft made from the arguments, or the
  contact link with the encoded summary; none for an unrecognised tool) exactly once,
  whatever its id: no engine records the ids it has dispatched, so a replayed id triggers
  the side effect again.  In the voice engine the side effects of a batch are those of its
  calls, in order, up to the first recognised call without arguments; in the text engine
  (when no acknowledgment exchange throws) those of the booking calls of the fragment, in
  order, up to the first booking call without arguments.
\<close>

theorem side_effect_once_per_dispatch:
  "filter is_side_effect (effects (branch_state (handle_tool_calls fcs vst))) =
     filter is_side_effect (effects vst) @
     concat (map side_effects (takeWhile (\<lambda>fc. \<not> no_args fc) fcs)) \<and>
   ((\<forall>k. svc_ack svc k \<noteq> Throws) \<longrightarrow>
      filter is_side_effect
        (chat_effects (state_of (call_loop svc botMsgId cs (st, full, k0)))) =
      filter is_side_effect (chat_effects st) @
      concat (map text_side_effects (takeWhile (\<lambda>call. \<not> text_no_args call) cs)))"
proof
  show "filter is_side_effect (effects (branch_state (handle_tool_calls fcs vst))) =
     filter is_side_effect (effects vst) @
     concat (map side_effects (takeWhile (\<lambda>fc. \<not> no_args fc) fcs))"
    by (rule handle_tool_calls_side_effects)
  have f: "filter is_side_effect (concat (map text_effects xs)) =
             concat (map text_side_effects xs)" for xs
    by (induction xs) (simp_all add: text_effects_def text_side_effects_def)
  show "(\<forall>k. svc_ack svc k \<noteq> Throws) \<longrightarrow>
      filter is_side_effect
        (chat_effects (state_of (call_loop svc botMsgId cs (st, full, k0)))) =
      filter is_side_effect (chat_effects st) @
      concat (map text_side_effects (takeWhile (\<lambda>call. \<not> text_no_args call) cs))"
    by (simp add: call_loop_trace f)
qed

theorem side_effect_once_per_dispatch_witness:
  "filter is_side_effect
     (effects (branch_state
        (handle_tool_calls [booking_call, unknown_call, whatsapp_call, booking_call] live_voice))) =
     [OpenBookingForm \<lparr>name = Some ''Sam'', phone = None, email = None, address = None,
        deviceType = None, serviceType = None, description = Some ''cracked screen''\<rparr>,
      SetWhatsappUrl ''https://wa.me/27817463629?text=iPhone%2012%3A%20cracked%20screen'',
      OpenBookingForm \<lparr>name = Some ''Sam'', phone = None, email = None, address = None,
        deviceType = None, serviceType = None, description = Some ''cracked screen''\<rparr>] \<and>
   filter is_side_effect
     (chat_effects (state_of
        (call_loop svc_booking ''101'' [booking_call, unknown_call, booking_call]
           (ready_chat, '''', 0)))) =
     [OpenBookingForm \<lparr>name = Some ''Sam'', phone = None, email = None, address = None,
        deviceType = None, serviceType = None, description = Some ''cracked screen''\<rparr>,
      OpenBookingForm \<lparr>name = Some ''Sam'', phone = None, email = None, address = None,
        deviceType = None, serviceType = None, description = Some ''cracked screen''\<rparr>]"
proof -
  note b = booking_call_fields and u = unknown_call_fields
  have h: "\<forall>k. svc_ack svc_booking k \<noteq> Throws" by (simp add: svc_booking_def)
  have w: "\<not> no_args whatsapp_call"
    "side_effects whatsapp_call =
       [SetWhatsappUrl ''https://wa.me/27817463629?text=iPhone%2012%3A%20cracked%20screen'']"
    by (simp_all add: whatsapp_call_def no_args_def side_effects_def encodeURIComponent_def
        encode_unit_def unreserved_def percent_def hex_digit_def Let_def)
  have sb: "side_effects booking_call =
       [OpenBookingForm \<lparr>name = Some ''Sam'', phone = None, email = None, address = None,
          deviceType = None, serviceType = None, description = Some ''cracked screen''\<rparr>]"
    "text_side_effects booking_call =
       [OpenBookingForm \<lparr>name = Some ''Sam'', phone = None, email = None, address = None,
          deviceType = None, serviceType = None, description = Some ''cracked screen''\<rparr>]"
    "text_side_effects unknown_call = []"
    by (simp_all add: side_effects_def text_side_effects_def b u)
  have c: "filter is_side_effect (effects live_voice) = []"
    "filter is_side_effect (chat_effects ready_chat) = []"
    by (simp_all add: live_voice_fields ready_chat_def initial_chat_def)
  note t = side_effect_once_per_dispatch
      [of "[booking_call, unknown_call, whatsapp_call, booking_call]" live_voice svc_booking
        "''101''" "[booking_call, unknown_call, booking_call]" ready_chat "''''" 0]
  have t1: "filter is_side_effect
       (effects (branch_state
          (handle_tool_calls [booking_call, unknown_call, whatsapp_call, booking_call] live_voice))) =
     filter is_side_effect (effects live_voice) @
     concat (map side_effects (takeWhile (\<lambda>fc. \<not> no_args fc)
        [booking_call, unknown_call, whatsapp_call, booking_call]))"
    using t by blast
  have t2: "filter is_side_effect
        (chat_effects (state_of
           (call_loop svc_booking ''101'' [booking_call, unknown_call, booking_call]
              (ready_chat, '''', 0)))) =
      filter is_side_effect (chat_effects ready_chat) @
      concat (map text_side_effects (takeWhile (\<lambda>call. \<not> text_no_args call)
         [booking_call, unknown_call, booking_call]))"
    using t h by blast
  show ?thesis unfolding t1 t2 c by (simp add: b(5,6) u(4,5,6) w sb)
qed

end
